theory Spec2Isabelle
  imports Main "HOL-Library.Word" "HOL-Library.Monad_Syntax"
begin

section \<open>Matrix chain multiplication optimizer\<close>

text \<open>
  A shallow embedding of \<^verbatim>\<open>Matrix_Chain_Multiplication_Optimizer.cpp\<close>.

  The C++ type \<^verbatim>\<open>int\<close> of the dimensions and of the cost table is a 32-bit word: sums and
  products wrap around (two's complement, what the usual compilers produce), and the
  comparison \<^verbatim>\<open>q < m[i][j]\<close> is the signed one. \<^verbatim>\<open>long long\<close> is a 64-bit word.
  Loop counters and the split points stored in \<^verbatim>\<open>s\<close> are indices into the
  \<open>(n+1) \<times> (n+1)\<close> tables; they are bounded by the table size and are natural numbers
  here. The member \<^verbatim>\<open>n\<close> is an integer, since the constructor computes it as
  \<^verbatim>\<open>dims.size() - 1\<close>, which is \<open>-1\<close> for an empty vector.
\<close>

type_synonym int32 = "32 word"

type_synonym int64 = "64 word"

definition INT_MAX :: int32 where
  "INT_MAX = 2147483647"

subsection \<open>The class and its tables\<close>

record MatrixChainOptimizer =
  P :: "int32 list"
  m :: "int32 list list"
  s :: "nat list list"
  n :: int

text \<open>\<^verbatim>\<open>t[i][j]\<close> and \<^verbatim>\<open>t[i][j] = v\<close> on a vector of vectors.\<close>

definition get2 :: "'a list list \<Rightarrow> nat \<Rightarrow> nat \<Rightarrow> 'a" where
  "get2 t i j = t ! i ! j"

definition upd2 :: "'a list list \<Rightarrow> nat \<Rightarrow> nat \<Rightarrow> 'a \<Rightarrow> 'a list list" where
  "upd2 t i j v = t[i := (t ! i)[j := v]]"

text \<open>
  The constructor: \<^verbatim>\<open>P = dims; n = dims.size() - 1; m.resize(n + 1, vector<int>(n + 1, 0));\<close>
  and the same for \<^verbatim>\<open>s\<close>. Both tables have \<open>n + 1 = dims.size()\<close> rows and columns.
\<close>

definition new_MatrixChainOptimizer :: "int32 list \<Rightarrow> MatrixChainOptimizer" where
  "new_MatrixChainOptimizer dims =
     (let n' = int (length dims) - 1 in
      \<lparr> P = dims,
        m = replicate (nat (n' + 1)) (replicate (nat (n' + 1)) 0),
        s = replicate (nat (n' + 1)) (replicate (nat (n' + 1)) 0),
        n = n' \<rparr>)"

subsection \<open>computeOptimalOrder\<close>

text \<open>The first loop: \<^verbatim>\<open>for (int i = 1; i <= n; ++i) m[i][i] = 0;\<close>\<close>

definition clear_diagonal :: "MatrixChainOptimizer \<Rightarrow> MatrixChainOptimizer" where
  "clear_diagonal st =
     fold (\<lambda>i st'. st'\<lparr>m := upd2 (m st') i i 0\<rparr>) [1..<nat (n st + 1)] st"

text \<open>
  The candidate \<^verbatim>\<open>q = m[i][k] + m[k + 1][j] + P[i - 1] * P[k] * P[j]\<close>, in 32-bit
  arithmetic, left to right.
\<close>

definition split_cost :: "MatrixChainOptimizer \<Rightarrow> nat \<Rightarrow> nat \<Rightarrow> nat \<Rightarrow> int32" where
  "split_cost st i j k =
     get2 (m st) i k + get2 (m st) (k + 1) j + P st ! (i - 1) * P st ! k * P st ! j"

text \<open>The body of the innermost loop, for one \<open>k\<close>.\<close>

definition try_split :: "nat \<Rightarrow> nat \<Rightarrow> nat \<Rightarrow> MatrixChainOptimizer \<Rightarrow> MatrixChainOptimizer" where
  "try_split i j k st =
     (let q = split_cost st i j k in
      if q <s get2 (m st) i j
      then st\<lparr>m := upd2 (m st) i j q, s := upd2 (s st) i j k\<rparr>
      else st)"

text \<open>
  The body of the loop over \<open>i\<close>, for one chain length \<open>L\<close>: \<^verbatim>\<open>j = i + L - 1\<close>,
  \<^verbatim>\<open>m[i][j] = INT_MAX\<close>, then \<^verbatim>\<open>for (int k = i; k < j; ++k)\<close>.
\<close>

definition solve_interval :: "nat \<Rightarrow> nat \<Rightarrow> MatrixChainOptimizer \<Rightarrow> MatrixChainOptimizer" where
  "solve_interval L i st =
     (let j = i + L - 1 in
      fold (try_split i j) [i..<j] (st\<lparr>m := upd2 (m st) i j INT_MAX\<rparr>))"

text \<open>The body of the loop over \<open>L\<close>: \<^verbatim>\<open>for (int i = 1; i <= n - L + 1; ++i)\<close>.\<close>

definition solve_length :: "nat \<Rightarrow> MatrixChainOptimizer \<Rightarrow> MatrixChainOptimizer" where
  "solve_length L st = fold (solve_interval L) [1..<nat (n st - int L + 1 + 1)] st"

text \<open>
  The whole method; the outer loop is \<^verbatim>\<open>for (int L = 2; L <= n; ++L)\<close>. On an object
  made by the constructor every index the loops use lies inside the vectors: \<open>1 \<le> i \<le> k < j \<le> n\<close>
  for the tables with \<open>n + 1\<close> rows and columns, and \<open>i - 1\<close>, \<open>k\<close>, \<open>j\<close> for the
  \<open>n + 1\<close> dimensions.
\<close>

definition computeOptimalOrder :: "MatrixChainOptimizer \<Rightarrow> MatrixChainOptimizer" where
  "computeOptimalOrder st = fold solve_length [2..<nat (n st + 1)] (clear_diagonal st)"

subsection \<open>getMinCost\<close>

text \<open>
  \<^verbatim>\<open>return m[1][n];\<close> Reading outside the table is undefined behaviour in C++; the model
  returns \<open>None\<close> there.
\<close>

definition getMinCost :: "MatrixChainOptimizer \<Rightarrow> int32 option" where
  "getMinCost st =
     (if 1 < length (m st) \<and> 0 \<le> n st \<and> nat (n st) < length (m st ! 1)
      then Some (get2 (m st) 1 (nat (n st))) else None)"

subsection \<open>printOptimalParenthesis\<close>

text \<open>\<^verbatim>\<open>out << i\<close> for a non-negative \<^verbatim>\<open>int\<close>: its decimal digits.\<close>

fun decimal :: "nat \<Rightarrow> string" where
  "decimal k =
     (if k < 10 then [char_of (48 + k)]
      else decimal (k div 10) @ [char_of (48 + k mod 10)])"

declare decimal.simps [simp del]

datatype fault = OutOfRange

text \<open>
  The recursion follows the split table and nothing bounds it, so the function is a
  partial one: \<open>None\<close> means that the call never returns. A call that returns yields
  the characters it wrote to \<^verbatim>\<open>out\<close>, or the fault of reading \<^verbatim>\<open>s[i][j]\<close> outside the
  table.
\<close>

partial_function (option) printOptimalParenthesis ::
  "MatrixChainOptimizer \<Rightarrow> nat \<Rightarrow> nat \<Rightarrow> (fault + string) option" where
  "printOptimalParenthesis st i j =
     (if i = j then Some (Inr (''A'' @ decimal i))
      else if \<not> (i < length (s st) \<and> j < length (s st ! i)) then Some (Inl OutOfRange)
      else do {
        l \<leftarrow> printOptimalParenthesis st i (get2 (s st) i j);
        case l of Inl e \<Rightarrow> Some (Inl e)
        | Inr a \<Rightarrow> do {
            r \<leftarrow> printOptimalParenthesis st (get2 (s st) i j + 1) j;
            case r of Inl e \<Rightarrow> Some (Inl e)
            | Inr b \<Rightarrow> Some (Inr (''('' @ a @ '' x '' @ b @ '')''))
          }
      })"

declare printOptimalParenthesis.simps [code]

subsection \<open>catalanNumber\<close>

text \<open>
  \<^verbatim>\<open>vector<long long> cat(n + 1, 0); cat[0] = cat[1] = 1;\<close> and the two nested loops with
  \<^verbatim>\<open>cat[i] += cat[j] * cat[i - j - 1]\<close>, in 64-bit arithmetic.
\<close>

definition catalan_add :: "nat \<Rightarrow> nat \<Rightarrow> int64 list \<Rightarrow> int64 list" where
  "catalan_add i j cat = cat[i := cat ! i + cat ! j * cat ! (i - j - 1)]"

definition catalan_table :: "nat \<Rightarrow> int64 list" where
  "catalan_table k =
     fold (\<lambda>i cat. fold (catalan_add i) [0..<i] cat) [2..<k + 1]
       ((replicate (k + 1) 0)[1 := 1, 0 := 1])"

definition catalanNumber :: "int \<Rightarrow> int64" where
  "catalanNumber k = (if k \<le> 1 then 1 else catalan_table (nat k) ! nat k)"

section \<open>The scan for the cheapest split\<close>

definition scan_step :: "(nat \<Rightarrow> int32) \<Rightarrow> nat \<Rightarrow> int32 \<times> nat \<Rightarrow> int32 \<times> nat" where
  "scan_step q k r = (if q k <s fst r then (q k, k) else r)"

definition scan :: "(nat \<Rightarrow> int32) \<Rightarrow> nat \<Rightarrow> nat \<Rightarrow> int32 \<times> nat \<Rightarrow> int32 \<times> nat" where
  "scan q i j r = fold (scan_step q) [i..<j] r"

lemma fold_upt_invariant:
  assumes "a \<le> b" and "I a x"
    and "\<And>i y. a \<le> i \<Longrightarrow> i < b \<Longrightarrow> I i y \<Longrightarrow> I (Suc i) (f i y)"
  shows "I b (fold f [a..<b] x)"
  using assms
proof (induction b)
  case 0
  then show ?case by simp
next
  case (Suc b)
  show ?case
  proof (cases "a = Suc b")
    case True
    with Suc.prems(2) show ?thesis by simp
  next
    case False
    with Suc.prems(1) have ab: "a \<le> b" by simp
    have "I b (fold f [a..<b] x)"
      using Suc.IH [OF ab Suc.prems(2)] Suc.prems(3) by simp
    then have "I (Suc b) (f b (fold f [a..<b] x))"
      using Suc.prems(3) [of b] ab by simp
    with ab show ?thesis by simp
  qed
qed

lemma sint_le_INT_MAX: "sint (x :: int32) \<le> sint INT_MAX"
proof -
  have "sint x < 2 ^ (LENGTH(32) - 1)" by (rule sint_lt)
  then show ?thesis by (simp add: INT_MAX_def)
qed

lemma scan_Suc: "i \<le> j \<Longrightarrow> scan q i (Suc j) r = scan_step q j (scan q i j r)"
  by (simp add: scan_def)

lemma scan_empty: "j \<le> i \<Longrightarrow> scan q i j r = r"
  by (simp add: scan_def)

text \<open>What the scan returns.\<close>

definition scan_spec :: "(nat \<Rightarrow> int32) \<Rightarrow> nat \<Rightarrow> nat \<Rightarrow> int32 \<times> nat \<Rightarrow> int32 \<times> nat \<Rightarrow> bool" where
  "scan_spec q i j r r' \<longleftrightarrow>
     (if \<forall>k\<in>{i..<j}. \<not> q k <s fst r then r' = r
      else snd r' \<in> {i..<j} \<and> q (snd r') = fst r' \<and> fst r' <s fst r
         \<and> (\<forall>k\<in>{i..<j}. sint (fst r') \<le> sint (q k))
         \<and> (\<forall>k\<in>{i..<snd r'}. sint (fst r') < sint (q k)))"

lemma scan_spec_step:
  assumes "i \<le> j" and "scan_spec q i j r r'"
  shows "scan_spec q i (Suc j) r (scan_step q j r')"
proof -
  obtain b k' where r': "r' = (b, k')" by (cases r')
  have split: "{i..<Suc j} = insert j {i..<j}"
    using assms(1) by auto
  show ?thesis
  proof (cases "\<forall>k\<in>{i..<j}. \<not> q k <s fst r")
    case True
    with assms(2) have "r' = r" by (simp add: scan_spec_def)
    with True show ?thesis
      using assms(1) by (auto simp: scan_spec_def scan_step_def split word_sless_alt)
  next
    case False
    with assms(2) have old: "k' \<in> {i..<j}" "q k' = b" "b <s fst r"
      "\<forall>k\<in>{i..<j}. sint b \<le> sint (q k)" "\<forall>k\<in>{i..<k'}. sint b < sint (q k)"
      by (auto simp: scan_spec_def r')
    from False have ex: "\<not> (\<forall>k\<in>{i..<Suc j}. \<not> q k <s fst r)"
      using split by auto
    show ?thesis
    proof (cases "q j <s b")
      case True
      then have new: "scan_step q j r' = (q j, j)"
        by (simp add: scan_step_def r')
      have "\<forall>k\<in>{i..<j}. sint (q j) < sint (q k)"
        using True old(4) by (auto simp: word_sless_alt)
      moreover have "q j <s fst r"
        using True old(3) by (simp add: word_sless_alt)
      ultimately show ?thesis
        using ex assms(1) by (auto simp: scan_spec_def new split less_imp_le)
    next
      case False
      then have new: "scan_step q j r' = (b, k')"
        by (simp add: scan_step_def r')
      have "sint b \<le> sint (q j)"
        using False by (simp add: word_sless_alt)
      moreover have "k' < Suc j" using old(1) by simp
      moreover have "i \<le> k'" using old(1) by simp
      ultimately show ?thesis
        using ex old(2-5) by (auto simp: scan_spec_def new split)
    qed
  qed
qed

lemma scan_result:
  assumes "i \<le> j"
  shows "scan_spec q i j r (scan q i j r)"
  unfolding scan_def
proof (rule fold_upt_invariant [where I = "\<lambda>j' r'. scan_spec q i j' r r'", OF assms])
  show "scan_spec q i i r r" by (simp add: scan_spec_def)
next
  fix j' y assume "i \<le> j'" "j' < j" "scan_spec q i j' r y"
  then show "scan_spec q i (Suc j') r (scan_step q j' y)"
    by (simp add: scan_spec_step)
qed

lemma scan_cong [fundef_cong]:
  assumes "i = i'" "j = j'" "r = r'" "\<And>k. i' \<le> k \<Longrightarrow> k < j' \<Longrightarrow> q k = q' k"
  shows "scan q i j r = scan q' i' j' r'"
  unfolding scan_def assms(1-3)
  by (rule fold_cong) (auto simp: scan_step_def assms(4))

function mcost :: "int32 list \<Rightarrow> nat \<Rightarrow> nat \<Rightarrow> int32" where
  "mcost D i j =
     (if j \<le> i then 0
      else fst (scan (\<lambda>k. mcost D i k + mcost D (k + 1) j + D ! (i - 1) * D ! k * D ! j)
                  i j (INT_MAX, 0)))"
  by pat_completeness auto

termination
  by (relation "measure (\<lambda>(D, i, j). j - i)") auto

declare mcost.simps [simp del]

definition mcand :: "int32 list \<Rightarrow> nat \<Rightarrow> nat \<Rightarrow> nat \<Rightarrow> int32" where
  "mcand D i j k = mcost D i k + mcost D (k + 1) j + D ! (i - 1) * D ! k * D ! j"

definition msplit :: "int32 list \<Rightarrow> nat \<Rightarrow> nat \<Rightarrow> nat \<Rightarrow> nat" where
  "msplit D i j k0 = snd (scan (mcand D i j) i j (INT_MAX, k0))"

lemma scan_fst_snd:
  "i \<le> j \<Longrightarrow> fst (scan q i j (b, k0)) = fst (scan q i j (b, k1)) \<and>
     (snd (scan q i j (b, k0)) = snd (scan q i j (b, k1)) \<or>
      scan q i j (b, k0) = (b, k0) \<and> scan q i j (b, k1) = (b, k1))"
proof (induction j)
  case 0
  then show ?case by (simp add: scan_empty)
next
  case (Suc j)
  show ?case
  proof (cases "i = Suc j")
    case True
    then show ?thesis by (simp add: scan_empty)
  next
    case False
    with Suc.prems have ij: "i \<le> j" by simp
    from Suc.IH [OF ij] show ?thesis
      by (auto simp: scan_Suc [OF ij] scan_step_def)
  qed
qed

lemma mcost_diag: "mcost D i i = 0"
  by (simp add: mcost.simps)

lemma mcost_unfold: "i < j \<Longrightarrow> mcost D i j = fst (scan (mcand D i j) i j (INT_MAX, k0))"
proof -
  assume "i < j"
  then have "mcost D i j = fst (scan (mcand D i j) i j (INT_MAX, 0))"
    by (subst mcost.simps) (simp add: mcand_def [abs_def])
  also have "\<dots> = fst (scan (mcand D i j) i j (INT_MAX, k0))"
    using \<open>i < j\<close> scan_fst_snd [of i j "mcand D i j" INT_MAX 0 k0] by simp
  finally show ?thesis .
qed

subsection \<open>Tables\<close>

definition square :: "nat \<Rightarrow> 'a list list \<Rightarrow> bool" where
  "square N t \<longleftrightarrow> length t = N + 1 \<and> (\<forall>r<N + 1. length (t ! r) = N + 1)"

definition well_formed :: "nat \<Rightarrow> MatrixChainOptimizer \<Rightarrow> bool" where
  "well_formed N st \<longleftrightarrow>
     n st = int N \<and> length (P st) = N + 1 \<and> square N (m st) \<and> square N (s st)"

lemma get2_upd2:
  "square N t \<Longrightarrow> i \<le> N \<Longrightarrow> j \<le> N \<Longrightarrow>
     get2 (upd2 t i j v) a b = (if a = i \<and> b = j then v else get2 t a b)"
  by (auto simp: square_def get2_def upd2_def nth_list_update)

lemma square_upd2: "square N t \<Longrightarrow> square N (upd2 t i j v)"
  by (cases "i < length t") (auto simp: square_def upd2_def nth_list_update)

lemma square_replicate: "square N (replicate (N + 1) (replicate (N + 1) v))"
  by (simp add: square_def del: replicate.simps)

lemma square_ext:
  assumes "square N t" "square N t'" "\<And>a b. a \<le> N \<Longrightarrow> b \<le> N \<Longrightarrow> get2 t a b = get2 t' a b"
  shows "t = t'"
proof (rule nth_equalityI)
  show "length t = length t'" using assms(1,2) by (simp add: square_def)
next
  fix a assume "a < length t"
  then have a: "a \<le> N" using assms(1) by (simp add: square_def)
  show "t ! a = t' ! a"
  proof (rule nth_equalityI)
    show "length (t ! a) = length (t' ! a)"
      using a assms(1,2) by (simp add: square_def)
  next
    fix b assume "b < length (t ! a)"
    then have "b \<le> N" using a assms(1) by (simp add: square_def)
    then show "t ! a ! b = t' ! a ! b"
      using assms(3) [OF a] by (simp add: get2_def)
  qed
qed

lemma nat_int_Suc: "nat (int k + 1) = Suc k"
  by arith

lemma well_formed_new:
  "dims \<noteq> [] \<Longrightarrow> well_formed (length dims - 1) (new_MatrixChainOptimizer dims)"
  by (cases dims)
    (simp_all add: well_formed_def new_MatrixChainOptimizer_def square_def Let_def
       nat_int_Suc del: replicate.simps)

subsection \<open>The innermost loop\<close>

text \<open>\<open>st'\<close> is \<open>st\<close> except for the entry \<open>(i, j)\<close> of the two tables.\<close>

definition only_changed ::
  "nat \<Rightarrow> nat \<Rightarrow> nat \<Rightarrow> MatrixChainOptimizer \<Rightarrow> MatrixChainOptimizer \<Rightarrow> bool" where
  "only_changed N i j st st' \<longleftrightarrow>
     well_formed N st' \<and> P st' = P st \<and>
     (\<forall>a b. \<not> (a = i \<and> b = j) \<longrightarrow>
        get2 (m st') a b = get2 (m st) a b \<and> get2 (s st') a b = get2 (s st) a b)"

lemma split_cost_only_changed:
  assumes "only_changed N i j st st'" "i \<le> k" "k < j"
  shows "split_cost st' i j k = split_cost st i j k"
  using assms by (simp add: only_changed_def split_cost_def)

lemma try_split_step:
  assumes oc: "only_changed N i j st st'" and bounds: "i \<le> N" "j \<le> N" "i \<le> k" "k < j"
  shows "only_changed N i j st (try_split i j k st')
       \<and> (get2 (m (try_split i j k st')) i j, get2 (s (try_split i j k st')) i j)
           = scan_step (split_cost st i j) k (get2 (m st') i j, get2 (s st') i j)"
proof -
  have wf: "square N (m st')" "square N (s st')"
    using oc by (simp_all add: only_changed_def well_formed_def)
  have q: "split_cost st' i j k = split_cost st i j k"
    using oc bounds by (simp add: split_cost_only_changed)
  show ?thesis
    using oc wf bounds q
    by (auto simp: try_split_def scan_step_def only_changed_def well_formed_def Let_def
        get2_upd2 [OF wf(1)] get2_upd2 [OF wf(2)] square_upd2)
qed

lemma solve_interval_result:
  assumes wf: "well_formed N st" and bounds: "1 \<le> i" "2 \<le> L" "i + L - 1 \<le> N"
  defines "j \<equiv> i + L - 1"
  defines "st' \<equiv> solve_interval L i st"
  shows "only_changed N i j st st'"
    and "(get2 (m st') i j, get2 (s st') i j)
           = scan (split_cost st i j) i j (INT_MAX, get2 (s st) i j)"
proof -
  define st1 where "st1 = st\<lparr>m := upd2 (m st) i j INT_MAX\<rparr>"
  have ij: "i \<le> j" "i \<le> N" "j \<le> N"
    using bounds by (simp_all add: j_def)
  have sq: "square N (m st)" "square N (s st)"
    using wf by (simp_all add: well_formed_def)
  have oc1: "only_changed N i j st st1"
    using wf ij by (simp add: only_changed_def st1_def well_formed_def square_upd2
        get2_upd2 [OF sq(1)])
  have init: "(get2 (m st1) i j, get2 (s st1) i j) = (INT_MAX, get2 (s st) i j)"
    using ij by (simp add: st1_def get2_upd2 [OF sq(1)])
  define I where "I = (\<lambda>k' y. only_changed N i j st y
      \<and> (get2 (m y) i j, get2 (s y) i j)
          = scan (split_cost st i j) i k' (INT_MAX, get2 (s st) i j))"
  have "I j (fold (try_split i j) [i..<j] st1)"
  proof (rule fold_upt_invariant [where I = I, OF ij(1)])
    show "I i st1"
      using oc1 init by (simp add: I_def scan_empty)
  next
    fix k y assume k: "i \<le> k" "k < j" and y: "I k y"
    from y have oc: "only_changed N i j st y" by (simp add: I_def)
    from try_split_step [OF oc ij(2,3) k] y k(1)
    show "I (Suc k) (try_split i j k y)"
      by (simp add: I_def scan_Suc)
  qed
  moreover have "st' = fold (try_split i j) [i..<j] st1"
    by (simp add: st'_def solve_interval_def Let_def j_def st1_def)
  ultimately show "only_changed N i j st st'"
    and "(get2 (m st') i j, get2 (s st') i j)
           = scan (split_cost st i j) i j (INT_MAX, get2 (s st) i j)"
    by (simp_all add: I_def)
qed

subsection \<open>The loops over intervals and lengths\<close>

text \<open>
  \<open>st'\<close> carries the solved entries exactly on the intervals selected by \<open>C\<close>, and is
  \<open>st\<close> everywhere else.
\<close>

definition tables_after ::
  "nat \<Rightarrow> (nat \<Rightarrow> nat \<Rightarrow> bool) \<Rightarrow> MatrixChainOptimizer \<Rightarrow> MatrixChainOptimizer \<Rightarrow> bool" where
  "tables_after N C st st' \<longleftrightarrow>
     well_formed N st' \<and> P st' = P st \<and>
     (\<forall>a b. get2 (m st') a b = (if C a b then mcost (P st) a b else get2 (m st) a b)) \<and>
     (\<forall>a b. get2 (s st') a b
              = (if C a b then msplit (P st) a b (get2 (s st) a b) else get2 (s st) a b))"

lemma tables_after_cong:
  "tables_after N C st st' \<Longrightarrow> (\<And>a b. C a b = C' a b) \<Longrightarrow> tables_after N C' st st'"
  by (simp add: tables_after_def)

lemma msplit_diag: "msplit D i i k0 = k0"
  by (simp add: msplit_def scan_empty)

definition shorter :: "nat \<Rightarrow> nat \<Rightarrow> nat \<Rightarrow> nat \<Rightarrow> bool" where
  "shorter N L a b \<longleftrightarrow> 1 \<le> a \<and> a \<le> b \<and> b \<le> N \<and> b + 1 < a + L"

lemma clear_diagonal_result:
  assumes wf: "well_formed N st"
  shows "tables_after N (shorter N 2) st (clear_diagonal st)"
proof -
  define I where "I = (\<lambda>i' y. tables_after N (\<lambda>a b. 1 \<le> a \<and> a < i' \<and> a = b) st y)"
  have "I (N + 1) (fold (\<lambda>i st'. st'\<lparr>m := upd2 (m st') i i 0\<rparr>) [1..<N + 1] st)"
  proof (rule fold_upt_invariant [where I = I])
    show "1 \<le> N + 1" by simp
    show "I 1 st" using wf by (simp add: I_def tables_after_def)
  next
    fix i y assume i: "1 \<le> i" "i < N + 1" and y: "I i y"
    have sq: "square N (m y)" using y by (simp add: I_def tables_after_def well_formed_def)
    show "I (Suc i) (y\<lparr>m := upd2 (m y) i i 0\<rparr>)"
      using y i sq
      by (auto simp: I_def tables_after_def well_formed_def square_upd2 get2_upd2 [OF sq]
          mcost_diag msplit_diag less_Suc_eq)
  qed
  moreover have "nat (n st + 1) = N + 1"
    using wf by (simp add: well_formed_def nat_int_Suc)
  ultimately have "tables_after N (\<lambda>a b. 1 \<le> a \<and> a < N + 1 \<and> a = b) st (clear_diagonal st)"
    by (simp add: clear_diagonal_def I_def)
  then show ?thesis
    by (rule tables_after_cong) (auto simp: shorter_def)
qed

lemma solve_interval_step:
  assumes ta: "tables_after N (\<lambda>a b. shorter N L a b \<or> (1 \<le> a \<and> a < i \<and> b + 1 = a + L)) st y"
    and bounds: "1 \<le> i" "2 \<le> L" "i + L - 1 \<le> N"
  shows "tables_after N (\<lambda>a b. shorter N L a b \<or> (1 \<le> a \<and> a < Suc i \<and> b + 1 = a + L)) st
           (solve_interval L i y)"
proof -
  define j where "j = i + L - 1"
  define y' where "y' = solve_interval L i y"
  have wf: "well_formed N y" and Py: "P y = P st"
    using ta by (simp_all add: tables_after_def)
  have ij: "i < j" "j \<le> N" "j + 1 = i + L"
    using bounds by (simp_all add: j_def)
  note res = solve_interval_result [OF wf bounds, folded j_def y'_def]
  have cand: "split_cost y i j k = mcand (P st) i j k" if "i \<le> k" "k < j" for k
  proof -
    have "shorter N L i k" "shorter N L (k + 1) j"
      using that bounds ij by (simp_all add: shorter_def)
    then have "get2 (m y) i k = mcost (P st) i k" "get2 (m y) (k + 1) j = mcost (P st) (k + 1) j"
      using ta by (simp_all add: tables_after_def)
    then show ?thesis
      by (simp add: split_cost_def mcand_def Py)
  qed
  have old_s: "get2 (s y) i j = get2 (s st) i j"
    using ta ij by (simp add: tables_after_def shorter_def)
  have "scan (split_cost y i j) i j (INT_MAX, get2 (s y) i j)
      = scan (mcand (P st) i j) i j (INT_MAX, get2 (s st) i j)"
    by (rule scan_cong) (simp_all add: old_s cand)
  with res(2) have new: "get2 (m y') i j = mcost (P st) i j"
    "get2 (s y') i j = msplit (P st) i j (get2 (s st) i j)"
    using mcost_unfold [OF ij(1), of "P st" "get2 (s st) i j"]
    by (simp_all add: msplit_def prod_eq_iff)
  have sel: "(1 \<le> a \<and> a < Suc i \<and> b + 1 = a + L) \<longleftrightarrow>
             ((1 \<le> a \<and> a < i \<and> b + 1 = a + L) \<or> (a = i \<and> b = j))" for a b
    using bounds ij by auto
  have notyet: "\<not> shorter N L i j" "\<not> (1 \<le> i \<and> i < i \<and> j + 1 = i + L)"
    using ij by (simp_all add: shorter_def)
  have "tables_after N (\<lambda>a b. shorter N L a b \<or> (1 \<le> a \<and> a < i \<and> b + 1 = a + L)
            \<or> (a = i \<and> b = j)) st y'"
    unfolding tables_after_def
  proof (intro conjI allI)
    show "well_formed N y'" using res(1) by (simp add: only_changed_def)
    show "P y' = P st" using res(1) Py by (simp add: only_changed_def)
  next
    fix a b
    show "get2 (m y') a b =
        (if shorter N L a b \<or> (1 \<le> a \<and> a < i \<and> b + 1 = a + L) \<or> (a = i \<and> b = j)
         then mcost (P st) a b else get2 (m st) a b)"
    proof (cases "a = i \<and> b = j")
      case True
      then show ?thesis using new(1) by simp
    next
      case False
      then have "get2 (m y') a b = get2 (m y) a b"
        using res(1) by (simp add: only_changed_def)
      then show ?thesis
        using ta False by (auto simp: tables_after_def)
    qed
  next
    fix a b
    show "get2 (s y') a b =
        (if shorter N L a b \<or> (1 \<le> a \<and> a < i \<and> b + 1 = a + L) \<or> (a = i \<and> b = j)
         then msplit (P st) a b (get2 (s st) a b) else get2 (s st) a b)"
    proof (cases "a = i \<and> b = j")
      case True
      then show ?thesis using new(2) by simp
    next
      case False
      then have "get2 (s y') a b = get2 (s y) a b"
        using res(1) by (simp add: only_changed_def)
      then show ?thesis
        using ta False by (auto simp: tables_after_def)
    qed
  qed
  then show ?thesis
    unfolding y'_def by (rule tables_after_cong) (use sel in auto)
qed

lemma solve_length_result:
  assumes ta: "tables_after N (shorter N L) st y" and bounds: "2 \<le> L" "L \<le> N"
  shows "tables_after N (shorter N (Suc L)) st (solve_length L y)"
proof -
  define I where "I = (\<lambda>i z.
     tables_after N (\<lambda>a b. shorter N L a b \<or> (1 \<le> a \<and> a < i \<and> b + 1 = a + L)) st z)"
  have ny: "n y = int N"
    using ta by (simp add: tables_after_def well_formed_def)
  have ub: "nat (n y - int L + 1 + 1) = N - L + 2"
    using bounds by (simp add: ny)
  have "I (N - L + 2) (fold (solve_interval L) [1..<N - L + 2] y)"
  proof (rule fold_upt_invariant [where I = I])
    show "1 \<le> N - L + 2" by simp
    show "I 1 y"
      unfolding I_def by (rule tables_after_cong [OF ta]) auto
  next
    fix i z assume i: "1 \<le> i" "i < N - L + 2" and z: "I i z"
    have "i + L - 1 \<le> N" using i bounds by arith
    from solve_interval_step [OF z [unfolded I_def] i(1) bounds(1) this]
    show "I (Suc i) (solve_interval L i z)" by (simp add: I_def)
  qed
  then have "tables_after N (\<lambda>a b. shorter N L a b \<or> (1 \<le> a \<and> a < N - L + 2 \<and> b + 1 = a + L))
      st (solve_length L y)"
    unfolding I_def solve_length_def ub .
  then show ?thesis
    by (rule tables_after_cong) (use bounds in \<open>auto simp: shorter_def\<close>)
qed

definition chain_interval :: "nat \<Rightarrow> nat \<Rightarrow> nat \<Rightarrow> bool" where
  "chain_interval N a b \<longleftrightarrow> 1 \<le> a \<and> a \<le> b \<and> b \<le> N"

lemma computeOptimalOrder_result:
  assumes wf: "well_formed N st"
  shows "tables_after N (chain_interval N) st (computeOptimalOrder st)"
proof (cases "1 \<le> N")
  case True
  have nst: "nat (n st + 1) = N + 1"
    using wf by (simp add: well_formed_def nat_int_Suc)
  have "tables_after N (shorter N (N + 1)) st
          (fold solve_length [2..<N + 1] (clear_diagonal st))"
  proof (rule fold_upt_invariant [where I = "\<lambda>L y. tables_after N (shorter N L) st y"])
    show "2 \<le> N + 1" using True by simp
    show "tables_after N (shorter N 2) st (clear_diagonal st)"
      by (rule clear_diagonal_result [OF wf])
  next
    fix L y assume "2 \<le> L" "L < N + 1" "tables_after N (shorter N L) st y"
    then show "tables_after N (shorter N (Suc L)) st (solve_length L y)"
      by (simp add: solve_length_result)
  qed
  then have "tables_after N (shorter N (N + 1)) st (computeOptimalOrder st)"
    unfolding computeOptimalOrder_def nst .
  then show ?thesis
    by (rule tables_after_cong) (auto simp: shorter_def chain_interval_def)
next
  case False
  then have N: "N = 0" by simp
  have "computeOptimalOrder st = st"
    using wf by (simp add: computeOptimalOrder_def clear_diagonal_def well_formed_def N)
  then show ?thesis
    using wf by (simp add: tables_after_def chain_interval_def N)
qed

subsection \<open>Consequences of the scan\<close>

text \<open>
  What \<^verbatim>\<open>main\<close> does with a dimension vector: construct the optimizer, then call
  \<^verbatim>\<open>computeOptimalOrder\<close> on it.
\<close>

abbreviation solved :: "int32 list \<Rightarrow> MatrixChainOptimizer" where
  "solved dims \<equiv> computeOptimalOrder (new_MatrixChainOptimizer dims)"

lemma scan_le:
  assumes "i \<le> k" "k < j"
  shows "sint (fst (scan q i j r)) \<le> sint (q k)"
proof -
  have "scan_spec q i j r (scan q i j r)"
    using assms by (simp add: scan_result)
  moreover have "k \<in> {i..<j}" using assms by simp
  ultimately show ?thesis
    unfolding scan_spec_def word_sless_alt
    by (cases "\<forall>k\<in>{i..<j}. \<not> sint (q k) < sint (fst r)") (force, simp)
qed

lemma scan_sentinel:
  assumes "i \<le> j"
  shows "fst (scan q i j (INT_MAX, k0)) = INT_MAX \<Longrightarrow> snd (scan q i j (INT_MAX, k0)) = k0"
    and "fst (scan q i j (INT_MAX, k0)) \<noteq> INT_MAX \<Longrightarrow>
           i \<le> snd (scan q i j (INT_MAX, k0)) \<and> snd (scan q i j (INT_MAX, k0)) < j
         \<and> q (snd (scan q i j (INT_MAX, k0))) = fst (scan q i j (INT_MAX, k0))
         \<and> (\<forall>k\<in>{i..<snd (scan q i j (INT_MAX, k0))}.
               sint (fst (scan q i j (INT_MAX, k0))) < sint (q k))"
proof -
  have sp: "scan_spec q i j (INT_MAX, k0) (scan q i j (INT_MAX, k0))"
    using assms by (simp add: scan_result)
  show "fst (scan q i j (INT_MAX, k0)) = INT_MAX \<Longrightarrow> snd (scan q i j (INT_MAX, k0)) = k0"
    using sp by (auto simp: scan_spec_def word_sless_alt split: if_splits)
  show "fst (scan q i j (INT_MAX, k0)) \<noteq> INT_MAX \<Longrightarrow>
           i \<le> snd (scan q i j (INT_MAX, k0)) \<and> snd (scan q i j (INT_MAX, k0)) < j
         \<and> q (snd (scan q i j (INT_MAX, k0))) = fst (scan q i j (INT_MAX, k0))
         \<and> (\<forall>k\<in>{i..<snd (scan q i j (INT_MAX, k0))}.
               sint (fst (scan q i j (INT_MAX, k0))) < sint (q k))"
    using sp by (auto simp: scan_spec_def split: if_splits)
qed

lemma scan_attained:
  assumes "i < j"
  shows "\<exists>k\<in>{i..<j}. fst (scan q i j (INT_MAX, k0)) = q k"
proof (cases "fst (scan q i j (INT_MAX, k0)) = INT_MAX")
  case True
  have "sint INT_MAX \<le> sint (q i)"
    using scan_le [of i i j q "(INT_MAX, k0)"] assms True by simp
  with sint_le_INT_MAX [of "q i"] have "sint (q i) = sint INT_MAX" by simp
  then have "q i = INT_MAX" by (rule signed_word_eqI)
  with True assms show ?thesis by (intro bexI [of _ i]) auto
next
  case False
  with scan_sentinel(2) [of i j q k0] assms show ?thesis
    by (intro bexI [of _ "snd (scan q i j (INT_MAX, k0))"]) auto
qed

lemma decimal_1: "decimal (Suc 0) = ''1''"
  by code_simp

subsection \<open>The tables of a fresh optimizer after computeOptimalOrder\<close>

lemma solved_tables:
  assumes "dims \<noteq> []"
  shows "tables_after (length dims - 1) (chain_interval (length dims - 1))
           (new_MatrixChainOptimizer dims) (solved dims)"
  using assms by (intro computeOptimalOrder_result well_formed_new)

lemma P_new [simp]: "P (new_MatrixChainOptimizer dims) = dims"
  by (simp add: new_MatrixChainOptimizer_def Let_def)

lemma solved_m:
  assumes "1 \<le> i" "i \<le> j" "j < length dims"
  shows "get2 (m (solved dims)) i j = mcost dims i j"
proof -
  have "dims \<noteq> []" "j \<le> length dims - 1" using assms by auto
  from solved_tables [OF this(1)] this(2) assms show ?thesis
    by (simp add: tables_after_def chain_interval_def)
qed

lemma get2_new_s:
  assumes "i < length dims" "j < length dims"
  shows "get2 (s (new_MatrixChainOptimizer dims)) i j = 0"
  using assms by (cases dims) (simp_all add: new_MatrixChainOptimizer_def Let_def get2_def nat_int_Suc del: replicate.simps)

lemma solved_s:
  assumes "1 \<le> i" "i \<le> j" "j < length dims"
  shows "get2 (s (solved dims)) i j = msplit dims i j 0"
proof -
  have "dims \<noteq> []" "j \<le> length dims - 1" using assms by auto
  from solved_tables [OF this(1)] this(2) assms show ?thesis
    by (simp add: tables_after_def chain_interval_def get2_new_s)
qed

lemma solved_P [simp]: "P (solved dims) = dims"
proof (cases "dims = []")
  case True
  then show ?thesis
    by (simp add: computeOptimalOrder_def clear_diagonal_def new_MatrixChainOptimizer_def)
next
  case False
  from solved_tables [OF this] show ?thesis by (simp add: tables_after_def)
qed

lemma solved_well_formed: "dims \<noteq> [] \<Longrightarrow> well_formed (length dims - 1) (solved dims)"
  using solved_tables [of dims] by (simp add: tables_after_def)

lemma solved_split_cost:
  assumes "1 \<le> i" "i \<le> k" "k < j" "j < length dims"
  shows "split_cost (solved dims) i j k = mcand dims i j k"
  using assms by (simp add: split_cost_def mcand_def solved_m)

lemma nat_int_pred: "nat (int k - 1) = k - 1"
  by arith

lemma getMinCost_solved:
  assumes "2 \<le> length dims"
  shows "getMinCost (solved dims) = Some (get2 (m (solved dims)) 1 (length dims - 1))"
proof -
  have ne: "dims \<noteq> []" using assms by auto
  from solved_well_formed [OF ne]
  have "n (solved dims) = int (length dims - 1)" "length (m (solved dims)) = length dims"
    "length (m (solved dims) ! 1) = length dims"
    using assms by (simp_all add: well_formed_def square_def)
  then show ?thesis
    using assms unfolding getMinCost_def by (auto simp: nat_int_pred)
qed

text \<open>
  No cost of a proper interval is the sentinel \<^verbatim>\<open>INT_MAX\<close>, with which the scan of every
  interval starts.
\<close>

definition sentinel_free :: "MatrixChainOptimizer \<Rightarrow> bool" where
  "sentinel_free st \<longleftrightarrow> (\<forall>j\<in>{1..nat (n st)}. \<forall>i\<in>{1..<j}. get2 (m st) i j \<noteq> INT_MAX)"

lemma scan_Min:
  assumes "i < j"
  shows "sint (fst (scan q i j (INT_MAX, k0))) = Min ((\<lambda>k. sint (q k)) ` {i..<j})"
proof (rule sym, rule Min_eqI)
  show "finite ((\<lambda>k. sint (q k)) ` {i..<j})" by simp
next
  fix y assume "y \<in> (\<lambda>k. sint (q k)) ` {i..<j}"
  then show "sint (fst (scan q i j (INT_MAX, k0))) \<le> y"
    by (auto simp: scan_le)
next
  from scan_attained [OF assms, of q k0]
  show "sint (fst (scan q i j (INT_MAX, k0))) \<in> (\<lambda>k. sint (q k)) ` {i..<j}"
    by auto
qed

lemma solved_m_le:
  assumes "1 \<le> i" "i \<le> k" "k < j" "j < length dims"
  shows "get2 (m (solved dims)) i j \<le>s split_cost (solved dims) i j k"
proof -
  have "i < j" using assms by simp
  have "sint (mcost dims i j) \<le> sint (mcand dims i j k)"
    unfolding mcost_unfold [OF \<open>i < j\<close>, of dims 0]
    using assms by (intro scan_le)
  then show ?thesis
    using assms by (simp add: solved_m solved_split_cost word_sle_eq)
qed

lemma solved_split:
  assumes "1 \<le> i" "i < j" "j < length dims" "get2 (m (solved dims)) i j \<noteq> INT_MAX"
  shows "i \<le> get2 (s (solved dims)) i j" "get2 (s (solved dims)) i j < j"
    "split_cost (solved dims) i j (get2 (s (solved dims)) i j) = get2 (m (solved dims)) i j"
    "\<forall>k\<in>{i..<get2 (s (solved dims)) i j}.
       sint (get2 (m (solved dims)) i j) < sint (split_cost (solved dims) i j k)"
proof -
  define r where "r = scan (mcand dims i j) i j (INT_MAX, 0)"
  have mr: "get2 (m (solved dims)) i j = fst r" and sr: "get2 (s (solved dims)) i j = snd r"
    using assms(1-3) mcost_unfold [of i j dims 0]
    by (simp_all add: solved_m solved_s msplit_def r_def)
  have "fst r \<noteq> INT_MAX" using assms(4) mr by simp
  from scan_sentinel(2) [OF _ this [unfolded r_def], folded r_def] assms(2)
  have k: "i \<le> snd r" "snd r < j" "mcand dims i j (snd r) = fst r"
    "\<forall>k\<in>{i..<snd r}. sint (fst r) < sint (mcand dims i j k)"
    by simp_all
  show "i \<le> get2 (s (solved dims)) i j" "get2 (s (solved dims)) i j < j"
    using k(1,2) sr by simp_all
  show "split_cost (solved dims) i j (get2 (s (solved dims)) i j) = get2 (m (solved dims)) i j"
    using k(1-3) assms(1,3) by (simp add: sr mr solved_split_cost)
  show "\<forall>k\<in>{i..<get2 (s (solved dims)) i j}.
       sint (get2 (m (solved dims)) i j) < sint (split_cost (solved dims) i j k)"
    using k assms(1,3) by (simp add: sr mr solved_split_cost)
qed

lemma solved_m_Min:
  assumes "1 \<le> i" "i < j" "j < length dims"
  shows "sint (get2 (m (solved dims)) i j)
       = Min ((\<lambda>k. sint (split_cost (solved dims) i j k)) ` {i..<j})"
proof -
  have "sint (get2 (m (solved dims)) i j) = Min ((\<lambda>k. sint (mcand dims i j k)) ` {i..<j})"
    using assms mcost_unfold [of i j dims 0] by (simp add: solved_m scan_Min)
  also have "(\<lambda>k. sint (mcand dims i j k)) ` {i..<j}
           = (\<lambda>k. sint (split_cost (solved dims) i j k)) ` {i..<j}"
    using assms by (intro image_cong) (simp_all add: solved_split_cost)
  finally show ?thesis .
qed

lemma solved_example_4: "solved [10, 20, 30, 40, 30] =
  \<lparr>P = [10, 20, 30, 40, 30],
   m = [[0, 0, 0, 0, 0], [0, 0, 6000, 18000, 30000], [0, 0, 0, 24000, 48000],
        [0, 0, 0, 0, 36000], [0, 0, 0, 0, 0]],
   s = [[0, 0, 0, 0, 0], [0, 0, 1, 2, 3], [0, 0, 0, 2, 3], [0, 0, 0, 0, 3], [0, 0, 0, 0, 0]],
   n = 4\<rparr>"
  by code_simp

lemma solved_sentinel_example: "solved [1, 1, 2147483647] =
  \<lparr>P = [1, 1, 2147483647], m = [[0, 0, 0], [0, 0, 2147483647], [0, 0, 0]],
   s = [[0, 0, 0], [0, 0, 0], [0, 0, 0]], n = 2\<rparr>"
  by code_simp

lemma print_leaf: "printOptimalParenthesis st i i = Some (Inr (''A'' @ decimal i))"
  by (subst printOptimalParenthesis.simps) simp

lemma print_node:
  assumes "i \<noteq> j" "i < length (s st)" "j < length (s st ! i)"
    and "printOptimalParenthesis st i (get2 (s st) i j) = Some (Inr a)"
    and "printOptimalParenthesis st (get2 (s st) i j + 1) j = Some (Inr b)"
  shows "printOptimalParenthesis st i j = Some (Inr (''('' @ a @ '' x '' @ b @ '')''))"
  using assms by (subst printOptimalParenthesis.simps) simp

lemma solved_n: "n (solved dims) = int (length dims) - 1"
proof (cases "dims = []")
  case True
  then show ?thesis
    by (simp add: computeOptimalOrder_def clear_diagonal_def new_MatrixChainOptimizer_def)
next
  case False
  with solved_well_formed [OF False] show ?thesis
    by (cases dims) (simp_all add: well_formed_def)
qed

lemma solved_s_shape:
  assumes "i < length dims"
  shows "length (s (solved dims)) = length dims" "length (s (solved dims) ! i) = length dims"
proof -
  have "dims \<noteq> []" using assms by auto
  from solved_well_formed [OF this] assms
  show "length (s (solved dims)) = length dims" "length (s (solved dims) ! i) = length dims"
    by (simp_all add: well_formed_def square_def)
qed

lemma sentinel_freeD:
  assumes "sentinel_free (solved dims)" "1 \<le> i" "i < j" "j < length dims"
  shows "get2 (m (solved dims)) i j \<noteq> INT_MAX"
proof -
  have "j \<in> {1..nat (n (solved dims))}" "i \<in> {1..<j}"
    using assms(2-4) by (simp_all add: solved_n nat_int_pred)
  with assms(1) show ?thesis
    unfolding sentinel_free_def by blast
qed

lemma print_returns:
  assumes "sentinel_free (solved dims)" "1 \<le> i" "i \<le> j" "j < length dims"
  shows "\<exists>t. printOptimalParenthesis (solved dims) i j = Some (Inr t)"
  using assms(2-4)
proof (induction "j - i" arbitrary: i j rule: less_induct)
  case less
  show ?case
  proof (cases "i = j")
    case True
    then show ?thesis by (simp add: print_leaf)
  next
    case False
    with less.prems have ij: "i < j" by simp
    define k where "k = get2 (s (solved dims)) i j"
    have k: "i \<le> k" "k < j"
      using solved_split(1,2) [OF less.prems(1) ij less.prems(3)
          sentinel_freeD [OF assms(1) less.prems(1) ij less.prems(3)]]
      by (simp_all add: k_def)
    have "k - i < j - i" "j - (k + 1) < j - i" using k by arith+
    note IH = less.hyps [OF this(1)] less.hyps [OF this(2)]
    from IH(1) k less.prems
    obtain a where a: "printOptimalParenthesis (solved dims) i k = Some (Inr a)" by auto
    from IH(2) k less.prems
    obtain b where b: "printOptimalParenthesis (solved dims) (k + 1) j = Some (Inr b)" by auto
    have il: "i < length dims" using ij less.prems by simp
    have "printOptimalParenthesis (solved dims) i j = Some (Inr (''('' @ a @ '' x '' @ b @ '')''))"
      using a b il less.prems(3)
      by (intro print_node False) (simp_all add: solved_s_shape [OF il] k_def)
    then show ?thesis by blast
  qed
qed

text \<open>A call whose split entry sends it back to itself never returns.\<close>

lemma print_self_loop:
  assumes "i \<noteq> j" "i < length (s st)" "j < length (s st ! i)" "get2 (s st) i j = j"
  shows "printOptimalParenthesis st i j = None"
proof (rule ccontr)
  assume "printOptimalParenthesis st i j \<noteq> None"
  then obtain y where y: "printOptimalParenthesis st i j = Some y" by auto
  have "\<not> (st = st \<and> i = i \<and> j = j)"
  proof (rule printOptimalParenthesis.raw_induct
      [where P = "\<lambda>st' i' j' y'. \<not> (st' = st \<and> i' = i \<and> j' = j)", OF _ y])
    fix f st' i' j' y'
    assume IH: "\<And>st'' i'' j'' y''. f st'' i'' j'' = Some y'' \<Longrightarrow> \<not> (st'' = st \<and> i'' = i \<and> j'' = j)"
      and body: "(if i' = j' then Some (Inr (''A'' @ decimal i'))
        else if \<not> (i' < length (s st') \<and> j' < length (s st' ! i')) then Some (Inl OutOfRange)
        else f st' i' (get2 (s st') i' j') \<bind>
             (\<lambda>l. case l of Inl e \<Rightarrow> Some (Inl e)
                  | Inr a \<Rightarrow>
                      f st' (get2 (s st') i' j' + 1) j' \<bind>
                      (\<lambda>r. case r of Inl e \<Rightarrow> Some (Inl e)
                           | Inr b \<Rightarrow> Some (Inr (''('' @ a @ '' x '' @ b @ '')''))))) = Some y'"
    show "\<not> (st' = st \<and> i' = i \<and> j' = j)"
    proof
      assume eq: "st' = st \<and> i' = i \<and> j' = j"
      with body assms obtain l where "f st i j = Some l"
        by (auto simp: bind_eq_Some_conv)
      with IH show False by blast
    qed
  qed
  then show False by simp
qed

lemma sentinel_free_example_4: "sentinel_free (solved [10, 20, 30, 40, 30])"
  by code_simp

lemma split_cost_example_4: "split_cost (solved [10, 20, 30, 40, 30]) 1 4 1 <s INT_MAX"
  by code_simp

text \<open>The candidate of a split in unbounded integers, read off the tables.\<close>

definition exact_split_cost :: "MatrixChainOptimizer \<Rightarrow> nat \<Rightarrow> nat \<Rightarrow> nat \<Rightarrow> int" where
  "exact_split_cost st i j k =
     sint (get2 (m st) i k) + sint (get2 (m st) (k + 1) j)
       + sint (P st ! (i - 1)) * sint (P st ! k) * sint (P st ! j)"

lemma print_example_2: "printOptimalParenthesis (solved [10, 20, 30]) 1 2 = Some (Inr ''(A1 x A2)'')"
  by code_simp

subsection \<open>Running the solver again\<close>

lemma msplit_idem: "msplit D i j (msplit D i j k0) = msplit D i j k0"
proof (cases "i \<le> j")
  case True
  from scan_fst_snd [OF True, of "mcand D i j" INT_MAX "msplit D i j k0" k0]
  show ?thesis by (auto simp: msplit_def)
next
  case False
  then show ?thesis by (simp add: msplit_def scan_empty)
qed

lemma computeOptimalOrder_idem:
  assumes wf: "well_formed N st"
  shows "computeOptimalOrder (computeOptimalOrder st) = computeOptimalOrder st"
proof -
  define st1 where "st1 = computeOptimalOrder st"
  define st2 where "st2 = computeOptimalOrder st1"
  have ta1: "tables_after N (chain_interval N) st st1"
    unfolding st1_def by (rule computeOptimalOrder_result [OF wf])
  then have wf1: "well_formed N st1" by (simp add: tables_after_def)
  have ta2: "tables_after N (chain_interval N) st1 st2"
    unfolding st2_def by (rule computeOptimalOrder_result [OF wf1])
  then have wf2: "well_formed N st2" by (simp add: tables_after_def)
  have PP: "P st1 = P st" "P st2 = P st"
    using ta1 ta2 by (simp_all add: tables_after_def)
  have "m st2 = m st1"
  proof (rule square_ext)
    show "square N (m st2)" "square N (m st1)"
      using wf1 wf2 by (simp_all add: well_formed_def)
    fix a b
    show "get2 (m st2) a b = get2 (m st1) a b"
      using ta1 ta2 by (simp add: tables_after_def)
  qed
  moreover have "s st2 = s st1"
  proof (rule square_ext)
    show "square N (s st2)" "square N (s st1)"
      using wf1 wf2 by (simp_all add: well_formed_def)
    fix a b
    show "get2 (s st2) a b = get2 (s st1) a b"
      using ta1 ta2 by (simp add: tables_after_def msplit_idem)
  qed
  moreover have "n st2 = n st1"
    using wf1 wf2 by (simp add: well_formed_def)
  ultimately have "st2 = st1"
    using PP by (intro MatrixChainOptimizer.equality) simp_all
  then show ?thesis by (simp add: st1_def st2_def)
qed

lemma computeOptimalOrder_empty:
  "computeOptimalOrder (new_MatrixChainOptimizer []) = new_MatrixChainOptimizer []"
  by (simp add: computeOptimalOrder_def clear_diagonal_def new_MatrixChainOptimizer_def)

section \<open>The Catalan counter\<close>

text \<open>The convolution recurrence, in the arithmetic of \<^verbatim>\<open>long long\<close>.\<close>

function catalan_rec :: "nat \<Rightarrow> int64" where
  "catalan_rec k =
     (if k \<le> 1 then 1 else (\<Sum>j\<leftarrow>[0..<k]. catalan_rec j * catalan_rec (k - 1 - j)))"
  by pat_completeness auto

termination
  by (relation "measure id") auto

declare catalan_rec.simps [simp del]

text \<open>The same recurrence on the integers: the Catalan numbers.\<close>

function catalan :: "nat \<Rightarrow> int" where
  "catalan k = (if k \<le> 1 then 1 else (\<Sum>j\<leftarrow>[0..<k]. catalan j * catalan (k - 1 - j)))"
  by pat_completeness auto

termination
  by (relation "measure id") auto

declare catalan.simps [simp del]

subsection \<open>The table of catalanNumber\<close>

lemma catalan_inner:
  assumes "i < length cat" "j' \<le> i"
  shows "fold (catalan_add i) [0..<j'] cat
       = cat[i := cat ! i + (\<Sum>j\<leftarrow>[0..<j']. cat ! j * cat ! (i - j - 1))]"
  using assms(2)
proof (induction j')
  case 0
  then show ?case by simp
next
  case (Suc j')
  then have "j' < i" "j' \<le> i" by simp_all
  then show ?case
    using Suc.IH assms(1)
    by (simp add: catalan_add_def add.assoc)
qed

definition catalan_filled :: "nat \<Rightarrow> nat \<Rightarrow> int64 list \<Rightarrow> bool" where
  "catalan_filled k i cat \<longleftrightarrow>
     length cat = k + 1 \<and> (\<forall>t<i. cat ! t = catalan_rec t) \<and> (\<forall>t. i \<le> t \<and> t \<le> k \<longrightarrow> cat ! t = 0)"

lemma catalan_outer_step:
  assumes "catalan_filled k i cat" "2 \<le> i" "i \<le> k"
  shows "catalan_filled k (Suc i) (fold (catalan_add i) [0..<i] cat)"
proof -
  have len: "length cat = k + 1" and old: "\<And>t. t < i \<Longrightarrow> cat ! t = catalan_rec t"
    and zero: "\<And>t. i \<le> t \<Longrightarrow> t \<le> k \<Longrightarrow> cat ! t = 0"
    using assms(1) by (simp_all add: catalan_filled_def)
  have il: "i < length cat" using assms(3) len by simp
  have "(\<Sum>j\<leftarrow>[0..<i]. cat ! j * cat ! (i - j - 1))
      = (\<Sum>j\<leftarrow>[0..<i]. catalan_rec j * catalan_rec (i - 1 - j))"
    by (rule arg_cong [where f = sum_list], rule map_cong) (simp_all add: old)
  also have "\<dots> = catalan_rec i"
    using assms(2) by (subst (3) catalan_rec.simps) simp
  finally have new: "fold (catalan_add i) [0..<i] cat = cat[i := catalan_rec i]"
    using catalan_inner [OF il order_refl] zero [of i] assms(3) by simp
  show ?thesis
    unfolding new catalan_filled_def
    using len old zero il by (auto simp: nth_list_update less_Suc_eq)
qed

lemma catalan_table_filled:
  assumes "1 \<le> k"
  shows "catalan_filled k (k + 1) (catalan_table k)"
proof -
  define c0 :: "int64 list" where "c0 = replicate (k + 1) 0"
  have c0: "length c0 = k + 1" "\<And>t. t \<le> k \<Longrightarrow> c0 ! t = 0"
    by (simp_all add: c0_def del: replicate.simps)
  have rec01: "catalan_rec 0 = 1" "catalan_rec (Suc 0) = 1"
    by (simp_all add: catalan_rec.simps)
  have init: "catalan_filled k 2 (c0[1 := 1, 0 := 1])"
    unfolding catalan_filled_def
  proof (intro conjI allI impI)
    show "length (c0[1 := 1, 0 := 1]) = k + 1" using c0 by simp
  next
    fix t :: nat assume "t < 2"
    then have "t = 0 \<or> t = 1" by arith
    then show "c0[1 := 1, 0 := 1] ! t = catalan_rec t"
      using assms c0(1) rec01 by (auto simp: nth_list_update)
  next
    fix t assume "2 \<le> t \<and> t \<le> k"
    then show "c0[1 := 1, 0 := 1] ! t = 0"
      using c0 by (simp add: nth_list_update)
  qed
  have "catalan_filled k (k + 1)
          (fold (\<lambda>i. fold (catalan_add i) [0..<i]) [2..<k + 1] (c0[1 := 1, 0 := 1]))"
  proof (rule fold_upt_invariant [where I = "catalan_filled k"])
    show "2 \<le> k + 1" using assms by simp
    show "catalan_filled k 2 (c0[1 := 1, 0 := 1])" by (rule init)
  next
    fix i y assume "2 \<le> i" "i < k + 1" "catalan_filled k i y"
    then show "catalan_filled k (Suc i) (fold (catalan_add i) [0..<i] y)"
      by (intro catalan_outer_step) simp_all
  qed
  then show ?thesis
    unfolding catalan_table_def c0_def .
qed

lemma catalanNumber_rec: "catalanNumber k = catalan_rec (nat k)"
proof (cases "k \<le> 1")
  case True
  then show ?thesis by (simp add: catalanNumber_def catalan_rec.simps)
next
  case False
  then have "1 \<le> nat k" by simp
  from catalan_table_filled [OF this] False show ?thesis
    by (simp add: catalanNumber_def catalan_filled_def)
qed

lemma catalanNumber_recurrence:
  assumes "2 \<le> k"
  shows "catalanNumber k = (\<Sum>j = 0..<nat k. catalanNumber (int j) * catalanNumber (k - 1 - int j))"
proof -
  have "catalanNumber k = (\<Sum>j\<leftarrow>[0..<nat k]. catalan_rec j * catalan_rec (nat k - 1 - j))"
    using assms unfolding catalanNumber_rec by (subst catalan_rec.simps) simp
  also have "\<dots> = (\<Sum>j\<leftarrow>[0..<nat k]. catalanNumber (int j) * catalanNumber (k - 1 - int j))"
  proof (rule arg_cong [where f = sum_list], rule map_cong)
    fix j assume "j \<in> set [0..<nat k]"
    then have "nat (k - 1 - int j) = nat k - 1 - j" by simp
    then show "catalan_rec j * catalan_rec (nat k - 1 - j)
             = catalanNumber (int j) * catalanNumber (k - 1 - int j)"
      by (simp add: catalanNumber_rec)
  qed simp
  finally show ?thesis
    by (simp add: interv_sum_list_conv_sum_set_nat)
qed

lemma catalan_rec_of_int: "catalan_rec k = of_int (catalan k)"
proof (induction k rule: less_induct)
  case (less k)
  show ?case
  proof (cases "k \<le> 1")
    case True
    then show ?thesis by (simp add: catalan_rec.simps catalan.simps)
  next
    case False
    have "(\<Sum>j\<leftarrow>[0..<k]. catalan_rec j * catalan_rec (k - 1 - j))
        = (\<Sum>j\<leftarrow>[0..<k]. of_int (catalan j * catalan (k - 1 - j)))"
      using False
      by (intro arg_cong [where f = sum_list] map_cong) (simp_all add: less.IH)
    also have "\<dots> = of_int (\<Sum>j\<leftarrow>[0..<k]. catalan j * catalan (k - 1 - j))"
      by (simp add: interv_sum_list_conv_sum_set_nat)
    finally show ?thesis
      using False by (subst catalan_rec.simps, subst catalan.simps) simp
  qed
qed

text \<open>The Catalan numbers \<open>C(0)\<close> to \<open>C(35)\<close>.\<close>

definition catalan_values :: "int list" where
  "catalan_values =
     [1, 1, 2, 5, 14, 42, 132, 429, 1430, 4862, 16796, 58786, 208012, 742900, 2674440,
      9694845, 35357670, 129644790, 477638700, 1767263190, 6564120420, 24466267020,
      91482563640, 343059613650, 1289904147324, 4861946401452, 18367353072152,
      69533550916004, 263747951750360, 1002242216651368, 3814986502092304,
      14544636039226909, 55534064877048198, 212336130412243110, 812944042149730764,
      3116285494907301262]"

lemma catalan_values_length: "length catalan_values = 36"
  by (simp add: catalan_values_def)

lemma catalan_values_convolution:
  "\<forall>k\<in>set [2..<36].
     (\<Sum>j\<leftarrow>[0..<k]. catalan_values ! j * catalan_values ! (k - 1 - j)) = catalan_values ! k"
  by code_simp

lemma catalan_values_bound: "\<forall>x\<in>set catalan_values. 0 \<le> x \<and> x < 2 ^ 63"
  by (simp add: catalan_values_def)

lemma catalan_eq_values: "k < 36 \<Longrightarrow> catalan k = catalan_values ! k"
proof (induction k rule: less_induct)
  case (less k)
  show ?case
  proof (cases "k \<le> 1")
    case True
    then have "k = 0 \<or> k = 1" by arith
    then show ?thesis
      by (auto simp: catalan.simps catalan_values_def)
  next
    case False
    then have "catalan k = (\<Sum>j\<leftarrow>[0..<k]. catalan j * catalan (k - 1 - j))"
      by (subst catalan.simps) simp
    also have "\<dots> = (\<Sum>j\<leftarrow>[0..<k]. catalan_values ! j * catalan_values ! (k - 1 - j))"
      using False less.prems
      by (intro arg_cong [where f = sum_list] map_cong) (simp_all add: less.IH)
    also have "\<dots> = catalan_values ! k"
    proof -
      have "k \<in> set [2..<36]" unfolding set_upt using False less.prems by simp
      from bspec [OF catalan_values_convolution this] show ?thesis .
    qed
    finally show ?thesis .
  qed
qed

lemma catalan_bound:
  assumes "k < 36"
  shows "0 \<le> catalan k" "catalan k < 2 ^ 63"
proof -
  have "catalan_values ! k \<in> set catalan_values"
    using assms by (intro nth_mem) (simp add: catalan_values_length)
  from bspec [OF catalan_values_bound this]
  show "0 \<le> catalan k" "catalan k < 2 ^ 63"
    using assms by (simp_all add: catalan_eq_values)
qed

lemma sint_catalanNumber:
  assumes "0 \<le> k" "k \<le> 35"
  shows "sint (catalanNumber k) = catalan (nat k)"
proof -
  have "nat k < 36" using assms by simp
  from catalan_bound [OF this]
  have "signed_take_bit (LENGTH(64) - 1) (catalan (nat k)) = catalan (nat k)"
    by (intro signed_take_bit_int_eq_self) simp_all
  then show ?thesis
    by (simp add: catalanNumber_rec catalan_rec_of_int sint_sbintrunc')
qed

lemma catalanNumber_values:
  "catalanNumber 0 = 1" "catalanNumber 1 = 1" "catalanNumber 4 = 14" "catalanNumber 5 = 42"
  by code_simp+

section \<open>Optimality of the computed cost\<close>

lemma word_of_int_sint32: "(word_of_int (sint a) :: int32) = a"
  by simp

lemma sint_exact:
  fixes a b p q r :: int32
  assumes "- 2147483648 \<le> sint a + sint b + sint p * sint q * sint r"
    and "sint a + sint b + sint p * sint q * sint r \<le> 2147483647"
  shows "sint (a + b + p * q * r) = sint a + sint b + sint p * sint q * sint r"
proof -
  define x where "x = sint a + sint b + sint p * sint q * sint r"
  have "a + b + p * q * r = word_of_int x"
    by (simp add: x_def)
  then have "sint (a + b + p * q * r) = signed_take_bit (LENGTH(32) - 1) x"
    by (simp only: sint_sbintrunc')
  also have "\<dots> = x"
    using assms by (intro signed_take_bit_int_eq_self) (simp_all add: x_def)
  finally show ?thesis
    by (simp add: x_def)
qed

subsection \<open>Parenthesizations\<close>

text \<open>
  A full parenthesization is a binary tree whose leaves are the matrices; its leaves, read
  left to right, are \<open>i, i+1, \<dots>, j\<close>. A product of a \<open>p \<times> q\<close> and a \<open>q \<times> r\<close> matrix
  takes \<open>p * q * r\<close> scalar multiplications, and matrix \<open>k\<close> is \<open>D[k-1] \<times> D[k]\<close>.
\<close>

datatype paren = Matrix nat | Product paren paren

fun leaves :: "paren \<Rightarrow> nat list" where
  "leaves (Matrix k) = [k]"
| "leaves (Product l r) = leaves l @ leaves r"

fun mult_cost :: "int list \<Rightarrow> paren \<Rightarrow> int" where
  "mult_cost D (Matrix k) = 0"
| "mult_cost D (Product l r) =
     mult_cost D l + mult_cost D r
       + D ! (hd (leaves l) - 1) * D ! last (leaves l) * D ! last (leaves r)"

function all_parens :: "nat \<Rightarrow> nat \<Rightarrow> paren list" where
  "all_parens i j =
     (if j \<le> i then [Matrix i]
      else concat (map (\<lambda>k. [Product l r. l \<leftarrow> all_parens i k, r \<leftarrow> all_parens (k + 1) j])
                    [i..<j]))"
  by pat_completeness auto

termination
  by (relation "measure (\<lambda>(i, j). j - i)") auto

declare all_parens.simps [simp del]

text \<open>
  The minimum found by enumerating every full parenthesization of the chain
  \<open>A\<^sub>1 \<dots> A\<^sub>n\<close>, in unbounded integers.
\<close>

definition bruteForceMinCost :: "int list \<Rightarrow> int" where
  "bruteForceMinCost D = Min (set (map (mult_cost D) (all_parens 1 (length D - 1))))"

text \<open>Every candidate the solver computes fits a 32-bit \<^verbatim>\<open>int\<close>.\<close>

definition no_overflow :: "MatrixChainOptimizer \<Rightarrow> bool" where
  "no_overflow st \<longleftrightarrow>
     (\<forall>j\<in>set [1..<nat (n st) + 1]. \<forall>i\<in>set [1..<j]. \<forall>k\<in>set [i..<j].
        - 2147483648 \<le> exact_split_cost st i j k \<and> exact_split_cost st i j k \<le> 2147483647)"

lemma leaves_nonempty [simp]: "leaves t \<noteq> []"
  by (induction t) simp_all

lemma upt_append_split:
  assumes "xs @ ys = [i..<Suc j]" "xs \<noteq> []" "ys \<noteq> []"
  shows "\<exists>k. i \<le> k \<and> k < j \<and> xs = [i..<Suc k] \<and> ys = [Suc k..<Suc j]"
proof -
  define a where "a = length xs"
  have "length (xs @ ys) = length [i..<Suc j]"
    by (simp only: assms(1))
  then have len: "a + length ys = Suc j - i"
    by (simp add: a_def del: upt_Suc)
  have a: "1 \<le> a" "1 \<le> length ys"
    using assms(2,3) by (simp_all add: a_def Suc_le_eq)
  have "xs = take a (xs @ ys)" "ys = drop a (xs @ ys)"
    by (simp_all add: a_def)
  moreover have "i + a \<le> Suc j"
    using len a by arith
  ultimately have "xs = [i..<i + a]" "ys = [i + a..<Suc j]"
    unfolding assms(1) by (simp_all del: upt_Suc)
  then show ?thesis
    using a len by (intro exI [of _ "i + a - 1"]) auto
qed

lemma upt_join: "i \<le> k \<Longrightarrow> k \<le> j \<Longrightarrow> [i..<Suc k] @ [Suc k..<Suc j] = [i..<Suc j]"
  using upt_add_eq_append [of i "Suc k" "j - k"] by (simp del: upt_Suc)

lemma upt_singleton: "[i..<Suc j] = [x] \<Longrightarrow> i = x \<and> j = x"
proof -
  assume eq: "[i..<Suc j] = [x]"
  then have "length [i..<Suc j] = 1" by (simp only: length_Cons list.size)
  then have "Suc j - i = 1" by (simp del: upt_Suc)
  then have "j = i" by arith
  with eq show ?thesis by simp
qed

subsection \<open>A table that satisfies the recurrence holds the cheapest parenthesization\<close>

lemma dp_lower:
  assumes diag: "\<And>i. 1 \<le> i \<Longrightarrow> i \<le> N \<Longrightarrow> E i i = 0"
    and rec: "\<And>i k j. 1 \<le> i \<Longrightarrow> i \<le> k \<Longrightarrow> k < j \<Longrightarrow> j \<le> N \<Longrightarrow>
                E i j \<le> E i k + E (Suc k) j + D ! (i - 1) * D ! k * D ! j"
  shows "leaves t = [i..<Suc j] \<Longrightarrow> 1 \<le> i \<Longrightarrow> j \<le> N \<Longrightarrow> E i j \<le> mult_cost D t"
proof (induction t arbitrary: i j)
  case (Matrix x)
  then have "i = x \<and> j = x" by (intro upt_singleton) simp
  with Matrix.prems diag [of x] show ?case by simp
next
  case (Product l r)
  from Product.prems(1) have "leaves l @ leaves r = [i..<Suc j]" by simp
  from upt_append_split [OF this] obtain k where k: "i \<le> k" "k < j"
    and l: "leaves l = [i..<Suc k]" and r: "leaves r = [Suc k..<Suc j]"
    by auto
  have "E i k \<le> mult_cost D l"
    using Product.IH(1) [OF l] Product.prems k by simp
  moreover have "E (Suc k) j \<le> mult_cost D r"
    using Product.IH(2) [OF r] Product.prems k by simp
  moreover have "hd (leaves l) = i" "last (leaves l) = k" "last (leaves r) = j"
    using k by (simp_all add: l r del: upt_Suc)
  moreover note rec [OF Product.prems(2) k Product.prems(3)]
  ultimately show ?case by simp
qed

lemma dp_attained:
  assumes diag: "\<And>i. 1 \<le> i \<Longrightarrow> i \<le> N \<Longrightarrow> E i i = 0"
    and rec: "\<And>i j. 1 \<le> i \<Longrightarrow> i < j \<Longrightarrow> j \<le> N \<Longrightarrow>
                \<exists>k. i \<le> k \<and> k < j \<and> E i j = E i k + E (Suc k) j + D ! (i - 1) * D ! k * D ! j"
  shows "1 \<le> i \<Longrightarrow> i \<le> j \<Longrightarrow> j \<le> N \<Longrightarrow> \<exists>t. leaves t = [i..<Suc j] \<and> mult_cost D t = E i j"
proof (induction "j - i" arbitrary: i j rule: less_induct)
  case less
  show ?case
  proof (cases "i = j")
    case True
    with less.prems diag [of i] show ?thesis
      by (intro exI [of _ "Matrix i"]) simp
  next
    case False
    with less.prems have ij: "i < j" by simp
    from rec [OF less.prems(1) ij less.prems(3)] obtain k where k: "i \<le> k" "k < j"
      and E: "E i j = E i k + E (Suc k) j + D ! (i - 1) * D ! k * D ! j"
      by auto
    have "k - i < j - i" "j - Suc k < j - i" using k by arith+
    note IH = less.hyps [OF this(1)] less.hyps [OF this(2)]
    from IH(1) k less.prems obtain l where l: "leaves l = [i..<Suc k]" "mult_cost D l = E i k"
      by auto
    from IH(2) k less.prems obtain r where r: "leaves r = [Suc k..<Suc j]" "mult_cost D r = E (Suc k) j"
      by auto
    have "hd (leaves l) = i" "last (leaves l) = k" "last (leaves r) = j"
      using k by (simp_all add: l r del: upt_Suc)
    moreover have "leaves (Product l r) = [i..<Suc j]"
      using k upt_join [of i k j] by (simp add: l r del: upt_Suc)
    ultimately show ?thesis
      using E l(2) r(2) by (intro exI [of _ "Product l r"]) simp
  qed
qed

subsection \<open>The enumeration is complete\<close>

lemma all_parens_leaves: "i \<le> j \<Longrightarrow> t \<in> set (all_parens i j) \<Longrightarrow> leaves t = [i..<Suc j]"
proof (induction i j arbitrary: t rule: all_parens.induct)
  case (1 i j)
  show ?case
  proof (cases "j \<le> i")
    case True
    then have "all_parens i j = [Matrix i]"
      by (subst all_parens.simps) simp
    with "1.prems" True have "i = j" "t = Matrix i" by simp_all
    then show ?thesis by simp
  next
    case False
    with "1.prems"(2) obtain k l r where k: "i \<le> k" "k < j"
      and l: "l \<in> set (all_parens i k)" and r: "r \<in> set (all_parens (k + 1) j)"
      and t: "t = Product l r"
      by (auto simp: all_parens.simps [of i j])
    have "leaves l = [i..<Suc k]"
      using "1.IH"(1) [OF False _ k(1) l] k by simp
    moreover have "leaves r = [Suc k..<Suc j]"
      using "1.IH"(2) [OF False _ _ _ r] k l by simp
    ultimately show ?thesis
      using k upt_join [of i k j] by (simp add: t del: upt_Suc)
  qed
qed

lemma leaves_all_parens: "leaves t = [i..<Suc j] \<Longrightarrow> t \<in> set (all_parens i j)"
proof (induction t arbitrary: i j)
  case (Matrix x)
  then have "i = x \<and> j = x" by (intro upt_singleton) simp
  then show ?case by (simp add: all_parens.simps [of x x])
next
  case (Product l r)
  from Product.prems have "leaves l @ leaves r = [i..<Suc j]" by simp
  from upt_append_split [OF this] obtain k where k: "i \<le> k" "k < j"
    and l: "leaves l = [i..<Suc k]" and r: "leaves r = [Suc k..<Suc j]"
    by auto
  have "k \<in> {i..<j}" using k by simp
  moreover have "l \<in> set (all_parens i k)" "r \<in> set (all_parens (Suc k) j)"
    using Product.IH(1) [OF l] Product.IH(2) [OF r] by simp_all
  ultimately show ?case
    using k by (subst all_parens.simps) force
qed

lemma set_all_parens: "i \<le> j \<Longrightarrow> set (all_parens i j) = {t. leaves t = [i..<Suc j]}"
  using all_parens_leaves leaves_all_parens by blast

lemma solved_m_attained:
  assumes "1 \<le> i" "i < j" "j < length dims"
  shows "\<exists>k. i \<le> k \<and> k < j \<and> get2 (m (solved dims)) i j = split_cost (solved dims) i j k"
proof -
  from scan_attained [OF assms(2), of "mcand dims i j" 0]
  obtain k where "i \<le> k" "k < j" "mcost dims i j = mcand dims i j k"
    using mcost_unfold [OF assms(2), of dims 0] by auto
  then show ?thesis
    using assms by (intro exI [of _ k]) (simp add: solved_m solved_split_cost)
qed

lemma no_overflowD:
  assumes "no_overflow (solved dims)" "1 \<le> i" "i \<le> k" "k < j" "j < length dims"
  shows "- 2147483648 \<le> exact_split_cost (solved dims) i j k"
    and "exact_split_cost (solved dims) i j k \<le> 2147483647"
proof -
  have "nat (n (solved dims)) + 1 = length dims"
    using assms(5) by (simp add: solved_n nat_int_pred)
  then have "j \<in> set [1..<nat (n (solved dims)) + 1]" "i \<in> set [1..<j]" "k \<in> set [i..<j]"
    using assms(2-5) by simp_all
  with assms(1)
  have "- 2147483648 \<le> exact_split_cost (solved dims) i j k
      \<and> exact_split_cost (solved dims) i j k \<le> 2147483647"
    unfolding no_overflow_def by blast
  then show "- 2147483648 \<le> exact_split_cost (solved dims) i j k"
    and "exact_split_cost (solved dims) i j k \<le> 2147483647"
    by simp_all
qed

lemma sint_split_cost:
  assumes "- 2147483648 \<le> exact_split_cost st i j k" "exact_split_cost st i j k \<le> 2147483647"
  shows "sint (split_cost st i j k) = exact_split_cost st i j k"
  using assms unfolding split_cost_def exact_split_cost_def by (rule sint_exact)

lemma exact_split_cost_solved:
  assumes "1 \<le> i" "i \<le> k" "k < j" "j < length dims"
  shows "exact_split_cost (solved dims) i j k
       = sint (get2 (m (solved dims)) i k) + sint (get2 (m (solved dims)) (Suc k) j)
         + map sint dims ! (i - 1) * map sint dims ! k * map sint dims ! j"
  using assms by (simp add: exact_split_cost_def)

lemma solved_cost_optimal:
  assumes no: "no_overflow (solved dims)" and b: "1 \<le> i" "i \<le> j" "j < length dims"
  shows "\<forall>t. leaves t = [i..<Suc j] \<longrightarrow> sint (get2 (m (solved dims)) i j) \<le> mult_cost (map sint dims) t"
    and "\<exists>t. leaves t = [i..<Suc j] \<and> mult_cost (map sint dims) t = sint (get2 (m (solved dims)) i j)"
proof -
  define E where "E = (\<lambda>a b. sint (get2 (m (solved dims)) a b))"
  define N where "N = length dims - 1"
  have jN: "j \<le> N" using b by (simp add: N_def)
  have diag: "E a a = 0" if "1 \<le> a" "a \<le> N" for a
    using that b by (simp add: E_def N_def solved_m mcost_diag)
  have cand: "sint (split_cost (solved dims) a c k) = E a k + E (Suc k) c
        + map sint dims ! (a - 1) * map sint dims ! k * map sint dims ! c"
    if "1 \<le> a" "a \<le> k" "k < c" "c \<le> N" for a k c
  proof -
    have c: "c < length dims" using that b by (simp add: N_def)
    from sint_split_cost [OF no_overflowD [OF no that(1-3) c]]
    show ?thesis
      by (simp add: exact_split_cost_solved [OF that(1-3) c] E_def)
  qed
  have rec_le: "E a c \<le> E a k + E (Suc k) c
        + map sint dims ! (a - 1) * map sint dims ! k * map sint dims ! c"
    if "1 \<le> a" "a \<le> k" "k < c" "c \<le> N" for a k c
  proof -
    have c: "c < length dims" using that b by (simp add: N_def)
    from solved_m_le [OF that(1-3) c] have "E a c \<le> sint (split_cost (solved dims) a c k)"
      by (simp add: E_def word_sle_eq)
    with cand [OF that] show ?thesis by simp
  qed
  have rec_ex: "\<exists>k. a \<le> k \<and> k < c \<and> E a c = E a k + E (Suc k) c
        + map sint dims ! (a - 1) * map sint dims ! k * map sint dims ! c"
    if "1 \<le> a" "a < c" "c \<le> N" for a c
  proof -
    have c: "c < length dims" using that b by (simp add: N_def)
    from solved_m_attained [OF that(1,2) c] obtain k where k: "a \<le> k" "k < c"
      and "get2 (m (solved dims)) a c = split_cost (solved dims) a c k"
      by auto
    then have "E a c = sint (split_cost (solved dims) a c k)" by (simp add: E_def)
    with cand [OF that(1) k that(3)] k show ?thesis by auto
  qed
  show "\<forall>t. leaves t = [i..<Suc j] \<longrightarrow> sint (get2 (m (solved dims)) i j) \<le> mult_cost (map sint dims) t"
    using dp_lower [of N E "map sint dims", OF diag rec_le _ b(1) jN]
    by (simp add: E_def)
  show "\<exists>t. leaves t = [i..<Suc j] \<and> mult_cost (map sint dims) t = sint (get2 (m (solved dims)) i j)"
    using dp_attained [of N E "map sint dims", OF diag rec_ex b(1,2) jN]
    by (simp add: E_def)
qed

lemma bruteForceMinCost_eq:
  assumes "2 \<le> length D"
    and "\<forall>t. leaves t = [1..<length D] \<longrightarrow> v \<le> mult_cost D t"
    and "\<exists>t. leaves t = [1..<length D] \<and> mult_cost D t = v"
  shows "bruteForceMinCost D = v"
proof -
  have S: "Suc (length D - 1) = length D" "1 \<le> length D - 1" using assms(1) by simp_all
  have set: "set (all_parens 1 (length D - 1)) = {t. leaves t = [1..<length D]}"
    using set_all_parens [OF S(2)] by (simp only: S(1))
  show ?thesis
    unfolding bruteForceMinCost_def set_map set
  proof (rule Min_eqI)
    show "finite (mult_cost D ` {t. leaves t = [1..<length D]})"
      unfolding set [symmetric] by simp
  next
    fix y assume "y \<in> mult_cost D ` {t. leaves t = [1..<length D]}"
    with assms(2) show "v \<le> y" by auto
  next
    from assms(3) show "v \<in> mult_cost D ` {t. leaves t = [1..<length D]}" by auto
  qed
qed

lemma min_cost_example_4:
  "getMinCost (solved [10, 20, 30, 40, 30]) = Some 30000"
  "bruteForceMinCost [10, 20, 30, 40, 30] = 30000"
  by code_simp+

lemma no_overflow_example_4: "no_overflow (solved [10, 20, 30, 40, 30])"
  unfolding solved_example_4 no_overflow_def exact_split_cost_def get2_def
  by (simp add: atLeastLessThan_nat_numeral)

lemma overflow_example:
  "getMinCost (solved [2000, 2000, 2000]) = Some (- 589934592)"
  "bruteForceMinCost [2000, 2000, 2000] = 8000000000"
  by code_simp+

subsection \<open>Values beyond the range of the machine integers\<close>

lemma solved_example_900: "solved [900, 900, 900, 900, 900, 900, 900, 900, 900] =
  \<lparr>P = [900, 900, 900, 900, 900, 900, 900, 900, 900],
   m = [[0, 0, 0, 0, 0, 0, 0, 0, 0],
        [0, 0, 729000000, 1458000000, - 2107967296, - 1378967296, - 649967296, 79032704, 808032704],
        [0, 0, 0, 729000000, 1458000000, - 2107967296, - 1378967296, - 649967296, 79032704],
        [0, 0, 0, 0, 729000000, 1458000000, - 2107967296, - 1378967296, - 649967296],
        [0, 0, 0, 0, 0, 729000000, 1458000000, - 2107967296, - 1378967296],
        [0, 0, 0, 0, 0, 0, 729000000, 1458000000, - 2107967296],
        [0, 0, 0, 0, 0, 0, 0, 729000000, 1458000000],
        [0, 0, 0, 0, 0, 0, 0, 0, 729000000],
        [0, 0, 0, 0, 0, 0, 0, 0, 0]],
   s = [[0, 0, 0, 0, 0, 0, 0, 0, 0],
        [0, 0, 1, 1, 1, 1, 1, 1, 1],
        [0, 0, 0, 2, 2, 2, 2, 2, 2],
        [0, 0, 0, 0, 3, 3, 3, 3, 3],
        [0, 0, 0, 0, 0, 4, 4, 4, 4],
        [0, 0, 0, 0, 0, 0, 5, 5, 5],
        [0, 0, 0, 0, 0, 0, 0, 6, 6],
        [0, 0, 0, 0, 0, 0, 0, 0, 7],
        [0, 0, 0, 0, 0, 0, 0, 0, 0]],
   n = 8\<rparr>"
  by code_simp

lemma catalan_36: "catalan 36 = 11959798385860453492"
proof -
  have "catalan 36 = (\<Sum>j\<leftarrow>[0..<36]. catalan j * catalan (36 - 1 - j))"
    by (subst catalan.simps) simp
  also have "\<dots> = (\<Sum>j\<leftarrow>[0..<36]. catalan_values ! j * catalan_values ! (36 - 1 - j))"
    by (intro arg_cong [where f = sum_list] map_cong) (simp_all add: catalan_eq_values)
  also have "\<dots> = 11959798385860453492"
    by code_simp
  finally show ?thesis .
qed

lemma catalanNumber_36: "catalanNumber 36 = 11959798385860453492"
  by code_simp

lemma sint_catalanNumber_36: "sint (catalanNumber 36) = - 6486945687849098124"
  by (simp add: catalanNumber_36)

lemma sint_catalanNumber_recurrence:
  assumes "2 \<le> k" "k \<le> 35"
  shows "sint (catalanNumber k)
       = (\<Sum>j = 0..<nat k. sint (catalanNumber (int j)) * sint (catalanNumber (k - 1 - int j)))"
proof -
  have "sint (catalanNumber k) = catalan (nat k)"
    using assms by (simp add: sint_catalanNumber)
  also have "\<dots> = (\<Sum>j\<leftarrow>[0..<nat k]. catalan j * catalan (nat k - 1 - j))"
    using assms by (subst catalan.simps) simp
  also have "\<dots> = (\<Sum>j\<leftarrow>[0..<nat k].
        sint (catalanNumber (int j)) * sint (catalanNumber (k - 1 - int j)))"
  proof (rule arg_cong [where f = sum_list], rule map_cong)
    fix j assume "j \<in> set [0..<nat k]"
    then have j: "j < nat k" by simp
    then have "nat (k - 1 - int j) = nat k - 1 - j" by simp
    moreover have "sint (catalanNumber (int j)) = catalan (nat (int j))"
      using j assms by (intro sint_catalanNumber) simp_all
    moreover have "sint (catalanNumber (k - 1 - int j)) = catalan (nat (k - 1 - int j))"
      using j assms by (intro sint_catalanNumber) simp_all
    ultimately show "catalan j * catalan (nat k - 1 - j)
        = sint (catalanNumber (int j)) * sint (catalanNumber (k - 1 - int j))"
      by simp
  qed simp
  finally show ?thesis
    by (simp add: interv_sum_list_conv_sum_set_nat)
qed

lemma print_sentinel_example: "printOptimalParenthesis (solved [1, 1, 2147483647]) 1 2 = None"
proof -
  have "printOptimalParenthesis (solved [1, 1, 2147483647]) 1 0 = None"
    by (rule print_self_loop) (simp_all add: solved_sentinel_example get2_def)
  then show ?thesis
    by (subst printOptimalParenthesis.simps) (simp add: solved_sentinel_example get2_def)
qed

section \<open>The claims\<close>

text \<open>
  Claim C1, as the code has it. For a dimension sequence with \<open>n \<ge> 1\<close> on which no
  candidate cost computed by the solver leaves the range of a 32-bit \<^verbatim>\<open>int\<close>,
  \<^verbatim>\<open>getMinCost\<close> returns the minimum, over all full parenthesizations of the chain, of the
  number of scalar multiplications; for \<open>[10, 20, 30, 40, 30]\<close> it is \<open>30000\<close>.
\<close>

theorem min_cost_optimal:
  assumes "2 \<le> length dims" "no_overflow (solved dims)"
  shows "(\<exists>v. getMinCost (solved dims) = Some v
            \<and> sint v = bruteForceMinCost (map sint dims)
            \<and> (\<forall>t. leaves t = [1..<length dims] \<longrightarrow> sint v \<le> mult_cost (map sint dims) t)
            \<and> (\<exists>t. leaves t = [1..<length dims] \<and> mult_cost (map sint dims) t = sint v))
       \<and> getMinCost (solved [10, 20, 30, 40, 30]) = Some 30000
       \<and> bruteForceMinCost [10, 20, 30, 40, 30] = 30000"
proof -
  define v where "v = get2 (m (solved dims)) 1 (length dims - 1)"
  have S: "Suc (length dims - 1) = length dims" "1 \<le> length dims - 1" "length dims - 1 < length dims"
    using assms(1) by simp_all
  note opt = solved_cost_optimal [OF assms(2) order_refl S(2,3), unfolded S(1), folded v_def]
  have "sint v = bruteForceMinCost (map sint dims)"
    using bruteForceMinCost_eq [of "map sint dims" "sint v"] opt assms(1) by simp
  moreover have "getMinCost (solved dims) = Some v"
    using getMinCost_solved [OF assms(1)] by (simp add: v_def)
  ultimately show ?thesis
    using opt min_cost_example_4 by blast
qed

theorem min_cost_optimal_witness:
  "\<exists>v. getMinCost (solved [10, 20, 30, 40, 30]) = Some v
      \<and> sint v = bruteForceMinCost (map sint [10, 20, 30, 40, 30 :: int32])"
  using min_cost_optimal [of "[10, 20, 30, 40, 30]", OF _ no_overflow_example_4] by auto

text \<open>
  Claim C1 as stated fails for the dimensions \<open>[2000, 2000, 2000]\<close>: the one product
  costs \<open>8000000000\<close> multiplications, which wraps around to a negative \<^verbatim>\<open>int\<close>.
\<close>

theorem min_cost_counterexample:
  "map_option sint (getMinCost (solved [2000, 2000, 2000])) = Some (- 589934592)
   \<and> bruteForceMinCost (map sint [2000, 2000, 2000 :: int32]) = 8000000000
   \<and> map_option sint (getMinCost (solved [2000, 2000, 2000]))
       \<noteq> Some (bruteForceMinCost (map sint [2000, 2000, 2000 :: int32]))"
  by (simp add: overflow_example)

text \<open>
  Claim C2, as the code has it. For every interval \<open>1 \<le> i < j \<le> n\<close>,
  \<^verbatim>\<open>computeOptimalOrder\<close> sets \<open>m[i][j]\<close> to the minimum over \<open>k\<close> in \<open>[i, j-1]\<close> of
  \<open>m[i][k] + m[k+1][j] + P[i-1] * P[k] * P[j]\<close> (in 32-bit arithmetic and the signed
  order; in unbounded integers when no candidate overflows), and, when that minimum is
  not \<^verbatim>\<open>INT_MAX\<close>, sets \<open>s[i][j]\<close> to the smallest \<open>k\<close> attaining it.
\<close>

theorem recurrence_and_first_split:
  assumes "1 \<le> i" "i < j" "j < length dims"
  shows "sint (get2 (m (solved dims)) i j)
           = Min ((\<lambda>k. sint (split_cost (solved dims) i j k)) ` {i..<j})
       \<and> (no_overflow (solved dims) \<longrightarrow>
            sint (get2 (m (solved dims)) i j)
              = Min ((\<lambda>k. exact_split_cost (solved dims) i j k) ` {i..<j}))
       \<and> (get2 (m (solved dims)) i j \<noteq> INT_MAX \<longrightarrow>
            i \<le> get2 (s (solved dims)) i j \<and> get2 (s (solved dims)) i j < j
          \<and> split_cost (solved dims) i j (get2 (s (solved dims)) i j) = get2 (m (solved dims)) i j
          \<and> (\<forall>k\<in>{i..<get2 (s (solved dims)) i j}.
                split_cost (solved dims) i j k \<noteq> get2 (m (solved dims)) i j))"
proof -
  have first: "\<forall>k\<in>{i..<get2 (s (solved dims)) i j}.
           split_cost (solved dims) i j k \<noteq> get2 (m (solved dims)) i j"
    if "get2 (m (solved dims)) i j \<noteq> INT_MAX"
    using solved_split(4) [OF assms that] by auto
  have exact: "sint (get2 (m (solved dims)) i j)
              = Min ((\<lambda>k. exact_split_cost (solved dims) i j k) ` {i..<j})"
    if no: "no_overflow (solved dims)"
  proof -
    have "(\<lambda>k. sint (split_cost (solved dims) i j k)) ` {i..<j}
        = (\<lambda>k. exact_split_cost (solved dims) i j k) ` {i..<j}"
    proof (rule image_cong [OF refl])
      fix k assume "k \<in> {i..<j}"
      then have k: "i \<le> k" "k < j" by simp_all
      from sint_split_cost [OF no_overflowD [OF no assms(1) k assms(3)]]
      show "sint (split_cost (solved dims) i j k) = exact_split_cost (solved dims) i j k" .
    qed
    with solved_m_Min [OF assms] show ?thesis by simp
  qed
  show ?thesis
    using solved_m_Min [OF assms] exact first solved_split(1-3) [OF assms] by blast
qed

theorem recurrence_and_first_split_witness:
  "sint (get2 (m (solved [10, 20, 30, 40, 30])) 1 4)
     = Min ((\<lambda>k. sint (split_cost (solved [10, 20, 30, 40, 30]) 1 4 k)) ` {1..<4})
   \<and> sint (get2 (m (solved [10, 20, 30, 40, 30])) 1 4)
     = Min ((\<lambda>k. exact_split_cost (solved [10, 20, 30, 40, 30]) 1 4 k) ` {1..<4})
   \<and> get2 (m (solved [10, 20, 30, 40, 30])) 1 4 \<noteq> INT_MAX
   \<and> 1 \<le> get2 (s (solved [10, 20, 30, 40, 30])) 1 4
   \<and> get2 (s (solved [10, 20, 30, 40, 30])) 1 4 < 4
   \<and> split_cost (solved [10, 20, 30, 40, 30]) 1 4 (get2 (s (solved [10, 20, 30, 40, 30])) 1 4)
       = get2 (m (solved [10, 20, 30, 40, 30])) 1 4"
proof -
  have "get2 (m (solved [10, 20, 30, 40, 30])) 1 4 \<noteq> INT_MAX"
    by (simp add: solved_example_4 get2_def INT_MAX_def)
  with recurrence_and_first_split [of 1 4 "[10, 20, 30, 40, 30]"] no_overflow_example_4
  show ?thesis by simp
qed

text \<open>
  Claim C2 as stated fails for the dimensions \<open>[1, 1, 2147483647]\<close>: the only split
  \<open>k = 1\<close> of the interval \<open>[1, 2]\<close> attains the minimum, which is \<^verbatim>\<open>INT_MAX\<close>, and
  \<open>s[1][2]\<close> is not \<open>1\<close>.
\<close>

theorem first_split_counterexample:
  "get2 (s (solved [1, 1, 2147483647])) 1 2 \<noteq> 1
   \<and> split_cost (solved [1, 1, 2147483647]) 1 2 1 = get2 (m (solved [1, 1, 2147483647])) 1 2"
  by (simp add: solved_sentinel_example get2_def split_cost_def)

text \<open>
  Claim C3, as the code has it. For \<open>1 \<le> i \<le> j \<le> n\<close>, \<^verbatim>\<open>printOptimalParenthesis\<close> writes
  \<open>A\<close> followed by the decimal digits of \<open>i\<close> when \<open>i = j\<close>. When \<open>i < j\<close> and no cost of
  a proper interval is \<^verbatim>\<open>INT_MAX\<close>, it writes \<open>(\<close>, the rendering of \<open>[i, s[i][j]]\<close>, the
  separator made of a space, the ASCII letter \<open>x\<close> and a space, the rendering of
  \<open>[s[i][j]+1, j]\<close>, and \<open>)\<close>; on any table it writes just that whenever the two inner
  calls return. For the dimensions \<open>[10, 20, 30]\<close> the output is \<open>(A1 x A2)\<close>.
\<close>

theorem rendering_structure:
  assumes "1 \<le> i" "i \<le> j" "j < length dims"
  shows "(i = j \<longrightarrow> printOptimalParenthesis (solved dims) i j = Some (Inr (''A'' @ decimal i)))
    \<and> (i < j \<longrightarrow>
         printOptimalParenthesis (solved dims) i (get2 (s (solved dims)) i j) = Some (Inr a) \<longrightarrow>
         printOptimalParenthesis (solved dims) (get2 (s (solved dims)) i j + 1) j = Some (Inr b) \<longrightarrow>
         printOptimalParenthesis (solved dims) i j = Some (Inr (''('' @ a @ '' x '' @ b @ '')'')))
    \<and> (i < j \<longrightarrow> sentinel_free (solved dims) \<longrightarrow>
         (\<exists>l r. printOptimalParenthesis (solved dims) i (get2 (s (solved dims)) i j) = Some (Inr l)
              \<and> printOptimalParenthesis (solved dims) (get2 (s (solved dims)) i j + 1) j = Some (Inr r)
              \<and> printOptimalParenthesis (solved dims) i j = Some (Inr (''('' @ l @ '' x '' @ r @ '')''))))
    \<and> printOptimalParenthesis (solved [10, 20, 30]) 1 2 = Some (Inr ''(A1 x A2)'')"
proof -
  have il: "i < length dims" using assms by simp
  note shape = solved_s_shape [OF il]
  have node: "printOptimalParenthesis (solved dims) i j = Some (Inr (''('' @ x @ '' x '' @ y @ '')''))"
    if "i < j"
      "printOptimalParenthesis (solved dims) i (get2 (s (solved dims)) i j) = Some (Inr x)"
      "printOptimalParenthesis (solved dims) (get2 (s (solved dims)) i j + 1) j = Some (Inr y)"
    for x y
    using that assms(3) il by (intro print_node) (simp_all add: shape)
  have ex: "\<exists>l r. printOptimalParenthesis (solved dims) i (get2 (s (solved dims)) i j) = Some (Inr l)
              \<and> printOptimalParenthesis (solved dims) (get2 (s (solved dims)) i j + 1) j = Some (Inr r)
              \<and> printOptimalParenthesis (solved dims) i j = Some (Inr (''('' @ l @ '' x '' @ r @ '')''))"
    if lt: "i < j" and sf: "sentinel_free (solved dims)"
  proof -
    define k where "k = get2 (s (solved dims)) i j"
    have k: "i \<le> k" "k < j"
      using solved_split(1,2) [OF assms(1) lt assms(3) sentinel_freeD [OF sf assms(1) lt assms(3)]]
      by (simp_all add: k_def)
    obtain l where l: "printOptimalParenthesis (solved dims) i k = Some (Inr l)"
      using print_returns [OF sf assms(1) k(1)] k(2) assms(3) by auto
    obtain r where r: "printOptimalParenthesis (solved dims) (k + 1) j = Some (Inr r)"
      using print_returns [OF sf, of "k + 1" j] k assms by auto
    from node [OF lt l [unfolded k_def] r [unfolded k_def]] l r show ?thesis
      unfolding k_def by blast
  qed
  show ?thesis
    using node ex print_example_2 by (auto simp: print_leaf)
qed

theorem rendering_structure_witness:
  "printOptimalParenthesis (solved [10, 20, 30, 40, 30]) 1 1 = Some (Inr ''A1'')
   \<and> (\<exists>l r. printOptimalParenthesis (solved [10, 20, 30, 40, 30]) 1 3 = Some (Inr l)
          \<and> printOptimalParenthesis (solved [10, 20, 30, 40, 30]) 4 4 = Some (Inr r)
          \<and> printOptimalParenthesis (solved [10, 20, 30, 40, 30]) 1 4
              = Some (Inr (''('' @ l @ '' x '' @ r @ '')'')))"
proof -
  have s14: "get2 (s (solved [10, 20, 30, 40, 30])) 1 4 = 3"
    by (simp add: solved_example_4 get2_def)
  from rendering_structure [of 1 1 "[10, 20, 30, 40, 30]"]
  have "printOptimalParenthesis (solved [10, 20, 30, 40, 30]) 1 1 = Some (Inr ''A1'')"
    by (simp add: decimal_1)
  moreover from rendering_structure [of 1 4 "[10, 20, 30, 40, 30]"] sentinel_free_example_4
  have "\<exists>l r. printOptimalParenthesis (solved [10, 20, 30, 40, 30]) 1 3 = Some (Inr l)
          \<and> printOptimalParenthesis (solved [10, 20, 30, 40, 30]) 4 4 = Some (Inr r)
          \<and> printOptimalParenthesis (solved [10, 20, 30, 40, 30]) 1 4
              = Some (Inr (''('' @ l @ '' x '' @ r @ '')''))"
    unfolding s14 by simp
  ultimately show ?thesis by blast
qed

text \<open>
  Claim C3 as stated fails twice. The separator the claim names holds the multiplication
  sign (the bytes \<open>C3 97\<close> in UTF-8), the program writes the letter \<open>x\<close>. And for the
  dimensions \<open>[1, 1, 2147483647]\<close> the interval \<open>[1, 2]\<close> has no rendering: the call
  never returns.
\<close>

theorem rendering_counterexample:
  "printOptimalParenthesis (solved [10, 20, 30]) 1 2
     \<noteq> Some (Inr (''(A1 '' @ [CHR 0xC3, CHR 0x97] @ '' A2)''))
   \<and> printOptimalParenthesis (solved [1, 1, 2147483647]) 1 2 = None"
  using print_example_2 print_sentinel_example by simp

text \<open>
  Claim C4, as the code has it. \<^verbatim>\<open>catalanNumber(n)\<close> is \<open>1\<close> for \<open>n \<le> 1\<close> and, for
  \<open>2 \<le> n \<le> 35\<close>, the sum over \<open>j\<close> in \<open>[0, n-1]\<close> of \<open>C(j) * C(n-1-j)\<close> over the integers,
  which is the Catalan number. \<open>C(0) = C(1) = 1\<close>, \<open>C(4) = 14\<close>, \<open>C(5) = 42\<close>. The function has
  no argument but \<open>n\<close>.
\<close>

theorem catalanNumber_convolution:
  "(k \<le> 1 \<longrightarrow> catalanNumber k = 1)
   \<and> (2 \<le> k \<and> k \<le> 35 \<longrightarrow>
        sint (catalanNumber k)
          = (\<Sum>j = 0..<nat k. sint (catalanNumber (int j)) * sint (catalanNumber (k - 1 - int j)))
      \<and> sint (catalanNumber k) = catalan (nat k))
   \<and> catalanNumber 0 = 1 \<and> catalanNumber 1 = 1
   \<and> catalanNumber 4 = 14 \<and> catalanNumber 5 = 42"
proof -
  have base: "k \<le> 1 \<longrightarrow> catalanNumber k = 1"
    by (simp add: catalanNumber_def)
  have conv: "sint (catalanNumber k)
      = (\<Sum>j = 0..<nat k. sint (catalanNumber (int j)) * sint (catalanNumber (k - 1 - int j)))"
    if "2 \<le> k" "k \<le> 35"
    using that by (rule sint_catalanNumber_recurrence)
  have exact: "sint (catalanNumber k) = catalan (nat k)" if "2 \<le> k" "k \<le> 35"
    using that by (intro sint_catalanNumber) simp_all
  show ?thesis
    using base conv exact catalanNumber_values by blast
qed

theorem catalanNumber_convolution_witness:
  "catalanNumber (- 3) = 1 \<and> sint (catalanNumber 5) = catalan (nat 5)"
proof -
  have "(2::int) \<le> 5 \<and> (5::int) \<le> 35" by simp
  with catalanNumber_convolution [of 5] have "sint (catalanNumber 5) = catalan (nat 5)"
    by blast
  moreover from catalanNumber_convolution [of "- 3"] have "catalanNumber (- 3) = 1"
    by simp
  ultimately show ?thesis by simp
qed

text \<open>
  Claim C4 as stated fails at \<open>n = 36\<close>: the recurrence gives \<open>11959798385860453492\<close>,
  which is above \<open>2\<^sup>6\<^sup>3\<close>, and the 64-bit sum is negative.
\<close>

theorem catalanNumber_overflow_counterexample:
  "sint (catalanNumber 36) = - 6486945687849098124
   \<and> catalan 36 = 11959798385860453492
   \<and> sint (catalanNumber 36) \<noteq> catalan 36"
  by (simp add: sint_catalanNumber_36 catalan_36)

text \<open>
  Claim C5. The table of \<^verbatim>\<open>catalanNumber\<close> holds 64-bit signed integers, and for every
  \<open>n\<close> from \<open>0\<close> to \<open>35\<close> (so also up to \<open>30\<close>) the result is the Catalan number \<open>C(n)\<close>,
  which is below \<open>2\<^sup>6\<^sup>3\<close>: nothing overflows.
\<close>

theorem catalanNumber_exact:
  assumes "0 \<le> k" "k \<le> 35"
  shows "sint (catalanNumber k) = catalan (nat k) \<and> catalan (nat k) < 2 ^ 63"
proof -
  have "nat k < 36" using assms by simp
  from catalan_bound(2) [OF this] sint_catalanNumber [OF assms] show ?thesis by simp
qed

theorem catalanNumber_exact_witness:
  "sint (catalanNumber 30) = catalan 30 \<and> catalan 30 < 2 ^ 63"
  using catalanNumber_exact [of 30] by simp

text \<open>
  Claim C6, as the code has it. On the tables of \<^verbatim>\<open>computeOptimalOrder\<close> in which no cost
  of a proper interval is \<^verbatim>\<open>INT_MAX\<close>, \<^verbatim>\<open>printOptimalParenthesis(i, j)\<close> returns for every
  \<open>1 \<le> i \<le> j \<le> n\<close>, and both recursive calls are on strictly shorter intervals.
\<close>

theorem reconstruction_terminates:
  assumes "sentinel_free (solved dims)" "1 \<le> i" "i \<le> j" "j < length dims"
  shows "(\<exists>t. printOptimalParenthesis (solved dims) i j = Some (Inr t))
       \<and> (i < j \<longrightarrow> get2 (s (solved dims)) i j - i < j - i
                  \<and> j - (get2 (s (solved dims)) i j + 1) < j - i)"
proof -
  have "get2 (s (solved dims)) i j - i < j - i \<and> j - (get2 (s (solved dims)) i j + 1) < j - i"
    if "i < j"
    using solved_split(1,2) [OF assms(2) that assms(4) sentinel_freeD [OF assms(1,2) that assms(4)]]
    by arith
  with print_returns [OF assms] show ?thesis by blast
qed

theorem reconstruction_terminates_witness:
  "(\<exists>t. printOptimalParenthesis (solved [10, 20, 30, 40, 30]) 1 4 = Some (Inr t))
   \<and> get2 (s (solved [10, 20, 30, 40, 30])) 1 4 - 1 < 4 - 1
   \<and> 4 - (get2 (s (solved [10, 20, 30, 40, 30])) 1 4 + 1) < 4 - 1"
  using reconstruction_terminates [OF sentinel_free_example_4, of 1 4] by simp

text \<open>
  Claim C6 as stated fails for the dimensions \<open>[1, 1, 2147483647]\<close>: \<open>s[1][2]\<close> is \<open>0\<close>,
  the call for \<open>(1, 2)\<close> calls \<open>(1, 0)\<close>, and that call calls itself for ever.
\<close>

theorem reconstruction_terminates_counterexample:
  "printOptimalParenthesis (solved [1, 1, 2147483647]) 1 2 = None"
proof -
  have "printOptimalParenthesis (solved [1, 1, 2147483647]) 1 0 = None"
    by (rule print_self_loop) (simp_all add: solved_sentinel_example get2_def)
  then show ?thesis
    by (subst printOptimalParenthesis.simps) (simp add: solved_sentinel_example get2_def)
qed

text \<open>
  Claim C7. The solver is a function of the dimension sequence alone, and a second run of
  \<^verbatim>\<open>computeOptimalOrder\<close> on the same optimizer leaves the object as the first run made it:
  the same \<open>m\<close>, the same \<open>s\<close>, the same rendering of every interval. The tables left by
  the first run are the only state a second run could pick up.
\<close>

theorem computeOptimalOrder_twice:
  "computeOptimalOrder (solved dims) = solved dims
   \<and> m (computeOptimalOrder (solved dims)) = m (solved dims)
   \<and> s (computeOptimalOrder (solved dims)) = s (solved dims)
   \<and> printOptimalParenthesis (computeOptimalOrder (solved dims)) i j
       = printOptimalParenthesis (solved dims) i j"
proof -
  have "computeOptimalOrder (solved dims) = solved dims"
  proof (cases "dims = []")
    case True
    then show ?thesis by (simp add: computeOptimalOrder_empty)
  next
    case False
    then show ?thesis
      by (rule computeOptimalOrder_idem [OF well_formed_new])
  qed
  then show ?thesis by simp
qed

text \<open>
  Claim C8, as the code has it. After \<^verbatim>\<open>computeOptimalOrder\<close>, for every \<open>1 \<le> i \<le> j \<le> n\<close> and every split
  \<open>k\<close> with \<open>i \<le> k < j\<close>, the entry \<open>m[i][j]\<close> is at most
  \<open>m[i][k] + m[k+1][j] + P[i-1] * P[k] * P[j]\<close>: with the program's own sum, product and
  comparison (32-bit arithmetic, signed order) always, and in unbounded integers when no
  candidate overflows.
\<close>

theorem cost_le_every_split:
  assumes "1 \<le> i" "i \<le> j" "j < length dims" "i \<le> k" "k < j"
  shows "get2 (m (solved dims)) i j \<le>s split_cost (solved dims) i j k
       \<and> (no_overflow (solved dims) \<longrightarrow>
            sint (get2 (m (solved dims)) i j) \<le> exact_split_cost (solved dims) i j k)"
proof -
  have le: "get2 (m (solved dims)) i j \<le>s split_cost (solved dims) i j k"
    using assms by (intro solved_m_le)
  have "sint (get2 (m (solved dims)) i j) \<le> exact_split_cost (solved dims) i j k"
    if "no_overflow (solved dims)"
    using le sint_split_cost [OF no_overflowD [OF that assms(1,4,5,3)]]
    by (simp add: word_sle_eq)
  with le show ?thesis by simp
qed

theorem cost_le_every_split_witness:
  "get2 (m (solved [10, 20, 30, 40, 30])) 1 4 \<le>s split_cost (solved [10, 20, 30, 40, 30]) 1 4 2
   \<and> sint (get2 (m (solved [10, 20, 30, 40, 30])) 1 4)
       \<le> exact_split_cost (solved [10, 20, 30, 40, 30]) 1 4 2"
  using cost_le_every_split [of 1 4 "[10, 20, 30, 40, 30]" 2] no_overflow_example_4 by simp

text \<open>
  Claim C8 as stated, over the integers, fails for nine dimensions of \<open>900\<close>: earlier
  entries have wrapped around to negative values, and for \<open>i = 1\<close>, \<open>j = 8\<close>, \<open>k = 4\<close> the
  right-hand side is \<open>-3486934592\<close>, below every \<^verbatim>\<open>int\<close>.
\<close>

theorem cost_le_every_split_counterexample:
  "sint (get2 (m (solved [900, 900, 900, 900, 900, 900, 900, 900, 900])) 1 8) = 808032704
   \<and> exact_split_cost (solved [900, 900, 900, 900, 900, 900, 900, 900, 900]) 1 8 4 = - 3486934592
   \<and> \<not> sint (get2 (m (solved [900, 900, 900, 900, 900, 900, 900, 900, 900])) 1 8)
         \<le> exact_split_cost (solved [900, 900, 900, 900, 900, 900, 900, 900, 900]) 1 8 4"
  by (simp add: solved_example_900 get2_def exact_split_cost_def)

text \<open>
  Claim C9. After \<^verbatim>\<open>computeOptimalOrder\<close> on a dimension sequence with \<open>n \<ge> 1\<close>, every
  diagonal entry \<open>m[i][i]\<close> with \<open>1 \<le> i \<le> n\<close> is \<open>0\<close>; for \<open>n = 1\<close>,
  \<^verbatim>\<open>getMinCost\<close> returns \<open>0\<close> and the chain is rendered as \<open>A1\<close>.
\<close>

theorem diagonal_zero:
  assumes "2 \<le> length dims"
  shows "(1 \<le> i \<and> i \<le> length dims - 1 \<longrightarrow> get2 (m (solved dims)) i i = 0)
       \<and> (length dims = 2 \<longrightarrow>
            getMinCost (solved dims) = Some 0
          \<and> printOptimalParenthesis (solved dims) 1 1 = Some (Inr ''A1''))"
proof -
  have "get2 (m (solved dims)) i i = 0" if "1 \<le> i" "i \<le> length dims - 1"
    using that assms by (simp add: solved_m mcost_diag)
  moreover have "getMinCost (solved dims) = Some 0" if "length dims = 2"
    using that by (simp add: getMinCost_solved solved_m mcost_diag)
  moreover have "printOptimalParenthesis st 1 1 = Some (Inr ''A1'')" for st
    by (subst printOptimalParenthesis.simps) (simp add: decimal_1)
  ultimately show ?thesis by simp
qed

theorem diagonal_zero_witness:
  "get2 (m (solved [5, 7])) 1 1 = 0 \<and> getMinCost (solved [5, 7]) = Some 0
     \<and> printOptimalParenthesis (solved [5, 7]) 1 1 = Some (Inr ''A1'')"
  using diagonal_zero [of "[5, 7]" 1] by simp

text \<open>
  Claim C10, as the code has it. For every interval \<open>1 \<le> i < j \<le> n\<close> that has a split
  whose cost is below the sentinel \<^verbatim>\<open>INT_MAX\<close>, the split entry satisfies
  \<open>i \<le> s[i][j] < j\<close>.
\<close>

theorem split_in_range:
  assumes "1 \<le> i" "i < j" "j < length dims"
    and "\<exists>k\<in>{i..<j}. split_cost (solved dims) i j k <s INT_MAX"
  shows "i \<le> get2 (s (solved dims)) i j \<and> get2 (s (solved dims)) i j < j"
proof -
  from assms(4) obtain k where k: "i \<le> k" "k < j" "split_cost (solved dims) i j k <s INT_MAX"
    by auto
  have "get2 (m (solved dims)) i j \<le>s split_cost (solved dims) i j k"
    using assms(1-3) k by (intro solved_m_le)
  with k(3) have "get2 (m (solved dims)) i j \<noteq> INT_MAX"
    by (auto simp: word_sle_eq word_sless_alt)
  from solved_split(1,2) [OF assms(1-3) this] show ?thesis by simp
qed

theorem split_in_range_witness:
  "1 \<le> get2 (s (solved [10, 20, 30, 40, 30])) 1 4 \<and> get2 (s (solved [10, 20, 30, 40, 30])) 1 4 < 4"
proof -
  have "\<exists>k\<in>{1..<4}. split_cost (solved [10, 20, 30, 40, 30]) 1 4 k <s INT_MAX"
    using split_cost_example_4 by (intro bexI [of _ 1]) simp_all
  with split_in_range [of 1 4 "[10, 20, 30, 40, 30]"] show ?thesis by simp
qed

text \<open>
  Claim C10 as stated fails for the dimensions \<open>[1, 1, 2147483647]\<close>: the one split cost
  is \<open>2147483647\<close>, which does not exceed the 32-bit maximum, and \<open>s[1][2]\<close> stays \<open>0\<close>.
\<close>

theorem split_in_range_counterexample:
  "exact_split_cost (solved [1, 1, 2147483647]) 1 2 1 \<le> 2147483647
   \<and> \<not> (1 \<le> get2 (s (solved [1, 1, 2147483647])) 1 2)"
  by (simp add: solved_sentinel_example get2_def exact_split_cost_def)

end
